theory Spec2Isabelle
  imports Complex_Main "HOL-Library.Multiset"
begin

section \<open>Errors\<close>

text \<open>
  The exceptions that the modelled code can raise. \<open>ZeroDivisionError\<close> is Python's own
  (\<open>n % 0\<close> on Python integers); \<open>RuntimeError\<close> is what the tensor library raises
  for an integer tensor division by zero; \<open>IndexError\<close> is an index outside a tensor
  dimension; \<open>TypeError\<close> is a call whose arguments do not fit the signature;
  \<open>SystemExit\<close>, with its exit code, is how \<open>argparse\<close> ends the program.
\<close>

datatype error = ZeroDivisionError | RuntimeError | IndexError | TypeError | SystemExit int

section \<open>Digit codec on Python integers (dataset.py, lines 4-18)\<close>

text \<open>
  Python integers are unbounded: \<open>int\<close>. Python's \<open>%\<close> and \<open>//\<close> round towards
  minus infinity, as \<open>mod\<close> and \<open>div\<close> on \<open>int\<close> do. The \<open>while n > 0\<close> loop need
  not end (\<open>base = 1\<close> leaves \<open>n\<close> unchanged), so it is a partial function: \<open>None\<close>
  is "does not return". \<open>n % 0\<close> raises.
\<close>

partial_function (option) int_to_digits_loop ::
  "int list \<Rightarrow> int \<Rightarrow> int \<Rightarrow> (error + int list) option" where
  "int_to_digits_loop digits n base =
     (if n > 0 then
        (if base = 0 then Some (Inl ZeroDivisionError)
         else int_to_digits_loop (digits @ [n mod base]) (n div base) base)
      else Some (Inr digits))"

definition int_to_digits :: "int \<Rightarrow> int \<Rightarrow> (error + int list) option" where
  "int_to_digits n base =
     (case int_to_digits_loop [] n base of
        None \<Rightarrow> None
      | Some (Inl e) \<Rightarrow> Some (Inl e)
      | Some (Inr digits) \<Rightarrow> Some (Inr (if digits = [] then [0] else digits)))"

definition digits_to_int :: "int list \<Rightarrow> int \<Rightarrow> int" where
  "digits_to_int digits base = foldl (\<lambda>n digit. n * base + digit) 0 (rev digits)"

section \<open>Integer tensors (dataset.py, lines 26-77)\<close>

text \<open>
  The tensors of \<open>dataset.py\<close> come from \<open>torch.randint\<close>, \<open>torch.arange\<close> and
  \<open>torch.full\<close> on Python integers: their elements are 64-bit signed integers, and
  tensor arithmetic wraps around. An element is an \<open>int\<close> in the int64 range and every
  arithmetic result is passed through \<open>wrap64\<close>. A 1-D tensor is a list, a 2-D tensor
  the list of its rows. A Python scalar that meets a tensor (\<open>base\<close>, a token id) is an
  int64 value as well; \<open>torch.full\<close>, which builds a tensor from such a scalar,
  raises when it is not.

  Integer tensor division by zero raises (\<open>RuntimeError: ZeroDivisionError\<close>); \<open>//\<close>
  and \<open>%\<close> on tensors round towards minus infinity, like Python's.
\<close>

definition wrap64 :: "int \<Rightarrow> int" where
  "wrap64 x = (x + 2 ^ 63) mod 2 ^ 64 - 2 ^ 63"

primrec traverse :: "('a \<Rightarrow> error + 'b) \<Rightarrow> 'a list \<Rightarrow> error + 'b list" where
  "traverse f [] = Inr []"
| "traverse f (x # xs) =
     (case f x of
        Inl e \<Rightarrow> Inl e
      | Inr y \<Rightarrow> (case traverse f xs of Inl e \<Rightarrow> Inl e | Inr ys \<Rightarrow> Inr (y # ys)))"

definition floor_divide :: "int \<Rightarrow> int \<Rightarrow> error + int" where
  "floor_divide a b = (if b = 0 then Inl RuntimeError else Inr (wrap64 (a div b)))"

definition remainder :: "int \<Rightarrow> int \<Rightarrow> error + int" where
  "remainder a b = (if b = 0 then Inl RuntimeError else Inr (a mod b))"

text \<open>\<open>torch.pow(base, torch.arange(max_length - 1, -1, -1))\<close>: the positional weights.\<close>

definition pow_arange :: "int \<Rightarrow> nat \<Rightarrow> int list" where
  "pow_arange base max_length = map (\<lambda>k. wrap64 (base ^ k)) (rev [0..<max_length])"

definition numbers_to_digits :: "int list \<Rightarrow> int \<Rightarrow> nat \<Rightarrow> error + int list list" where
  "numbers_to_digits tensor base max_length =
     (let tensor2 = map (replicate max_length) tensor;
          bases = pow_arange base max_length
      in case traverse (\<lambda>row. traverse (\<lambda>(x, w). floor_divide x w) (zip row bases)) tensor2 of
           Inl e \<Rightarrow> Inl e
         | Inr quotients \<Rightarrow> traverse (traverse (\<lambda>q. remainder q base)) quotients)"

definition digits_to_numbers :: "int list list \<Rightarrow> int \<Rightarrow> int list" where
  "digits_to_numbers digits base =
     map (\<lambda>row.
            let max_length = length row;
                bases = pow_arange base max_length
            in wrap64 (sum_list (map2 (\<lambda>d w. wrap64 (d * w)) row bases)))
         digits"

text \<open>
  \<open>make_digits_random_length\<close> draws from the random generator. The draws are
  arguments of the model: \<open>rdigits i j\<close> is element \<open>(i, j)\<close> of
  \<open>torch.randint(base, (bs, max_number_length))\<close>, a value in \<open>[0, base)\<close>, and
  \<open>rn i\<close> element \<open>i\<close> of \<open>torch.randint(max_number_length, (bs,))\<close>, a value in
  \<open>[0, max_number_length)\<close>.
\<close>

definition make_digits_random_length ::
  "nat \<Rightarrow> int \<Rightarrow> nat \<Rightarrow> (nat \<Rightarrow> nat \<Rightarrow> int) \<Rightarrow> (nat \<Rightarrow> int) \<Rightarrow> int list list" where
  "make_digits_random_length bs base max_number_length rdigits rn =
     map (\<lambda>i. map (\<lambda>j. if int j < rn i then 0 else rdigits i j) [0..<max_number_length])
         [0..<bs]"

text \<open>
  \<open>sorting_tensor.sort(dim=1)\<close> returns the indices that sort a row of keys. The model
  sorts stably; the keys of \<open>move_padding_to_end\<close> tie only between padding positions,
  which all hold the same token, so every sorting order gathers the same row
  (lemma \<open>gather_any_sorting_order\<close>).
\<close>

definition argsort :: "int list \<Rightarrow> nat list" where
  "argsort keys = sort_key (\<lambda>i. keys ! i) [0..<length keys]"

definition sorting_keys :: "int list \<Rightarrow> int \<Rightarrow> int list" where
  "sorting_keys row padding_token =
     (let non_padding_mask = map (\<lambda>v. v \<noteq> padding_token) row
      in map2 (\<lambda>m j. (if m then 1 else 0) * int j + (if \<not> m then 1 else 0) * int (length row))
              non_padding_mask [0..<length row])"

definition move_padding_row :: "int list \<Rightarrow> int \<Rightarrow> int list" where
  "move_padding_row row padding_token =
     (let sorting_tensor = sorting_keys row padding_token;
          sorted_indices = argsort sorting_tensor
      in map (\<lambda>i. row ! i) sorted_indices)"

definition move_padding_to_end :: "int list list \<Rightarrow> int \<Rightarrow> int list list" where
  "move_padding_to_end tensor padding_token =
     map (\<lambda>row. move_padding_row row padding_token) tensor"

fun cumsum :: "int \<Rightarrow> int list \<Rightarrow> int list" where
  "cumsum acc [] = []"
| "cumsum acc (x # xs) = wrap64 (acc + x) # cumsum (wrap64 (acc + x)) xs"

text \<open>
  The source's \<open>leading_zeros_to_padding_\<close> (a name cannot end in an underscore
  here) mutates \<open>digits\<close>; the model returns the new tensor.
  \<open>mask[:, -1] = False\<close> raises IndexError on a tensor without columns.
\<close>

definition leading_zeros_to_padding_row :: "int list \<Rightarrow> int \<Rightarrow> error + int list" where
  "leading_zeros_to_padding_row row padding_token =
     (let mask = map (\<lambda>c. c = 0) (cumsum 0 row)
      in if row = [] then Inl IndexError
         else Inr (map2 (\<lambda>m d. if m then padding_token else d)
                        (mask[length row - 1 := False]) row))"

definition leading_zeros_to_padding :: "int list list \<Rightarrow> int \<Rightarrow> error + int list list" where
  "leading_zeros_to_padding digits padding_token =
     traverse (\<lambda>row. leading_zeros_to_padding_row row padding_token) digits"

section \<open>The dataset (dataset.py, lines 80-136)\<close>

text \<open>
  \<open>number_length\<close> is a tensor dimension: a \<open>nat\<close>. The driver mutates it; the token
  ids are fixed at construction.
\<close>

record AdditionDataset =
  num_samples :: int
  base :: int
  number_length :: nat
  sequence_length :: int
  end_token :: int
  separator_token :: int
  padding_token :: int
  eos_token :: int

definition AdditionDataset_init :: "int \<Rightarrow> int \<Rightarrow> nat \<Rightarrow> AdditionDataset" where
  "AdditionDataset_init n b l =
     \<lparr> num_samples = n, base = b, number_length = l, sequence_length = 2,
       end_token = b, separator_token = b + 1, padding_token = b + 2, eos_token = b + 3 \<rparr>"

definition max_input_length :: "AdditionDataset \<Rightarrow> int" where
  "max_input_length self = sequence_length self * (int (number_length self) + 1)"

definition max_output_length :: "AdditionDataset \<Rightarrow> (error + int) option" where
  "max_output_length self =
     (let max_number = sequence_length self * base self ^ number_length self
      in case int_to_digits max_number (base self) of
           None \<Rightarrow> None
         | Some (Inl e) \<Rightarrow> Some (Inl e)
         | Some (Inr ds) \<Rightarrow> Some (Inr (int (length ds) + 1)))"

definition seq :: "AdditionDataset \<Rightarrow> (error + int) option" where
  "seq self =
     (case max_output_length self of
        None \<Rightarrow> None
      | Some (Inl e) \<Rightarrow> Some (Inl e)
      | Some (Inr out_len) \<Rightarrow> Some (Inr (max_input_length self + out_len)))"

text \<open>The random draws of one \<open>generate_batch\<close>: two calls of \<open>make_digits_random_length\<close>.\<close>

record draws =
  digits0 :: "nat \<Rightarrow> nat \<Rightarrow> int"
  n_digits0 :: "nat \<Rightarrow> int"
  digits1 :: "nat \<Rightarrow> nat \<Rightarrow> int"
  n_digits1 :: "nat \<Rightarrow> int"

text \<open>
  Lines 112-118 of \<open>generate_batch\<close>: the two operand blocks and the output block
  \<open>out_digits\<close>, before the leading zeros are replaced.
\<close>

definition generate_blocks ::
  "AdditionDataset \<Rightarrow> nat \<Rightarrow> draws \<Rightarrow> error + (int list list \<times> int list list \<times> int list list)" where
  "generate_blocks self bs rnd =
     (let in_digits0 = make_digits_random_length bs (base self) (number_length self)
                         (digits0 rnd) (n_digits0 rnd);
          in_digits1 = make_digits_random_length bs (base self) (number_length self)
                         (digits1 rnd) (n_digits1 rnd);
          batch_sums = map2 (\<lambda>x y. wrap64 (x + y))
                   (digits_to_numbers in_digits0 (base self))
                   (digits_to_numbers in_digits1 (base self))
      in case numbers_to_digits batch_sums (base self) (number_length self + 1) of
           Inl e \<Rightarrow> Inl e
         | Inr out_digits \<Rightarrow> Inr (in_digits0, in_digits1, out_digits))"

text \<open>
  \<open>torch.full((bs, 1), fill_value)\<close>: a column of \<open>bs\<close> copies of a Python integer, as
  an int64 tensor. A fill value outside the int64 range raises \<open>RuntimeError\<close>.
\<close>

definition full :: "nat \<Rightarrow> int \<Rightarrow> error + int list list" where
  "full bs fill_value =
     (if - (2 ^ 63) \<le> fill_value \<and> fill_value < 2 ^ 63 then Inr (replicate bs [fill_value])
      else Inl RuntimeError)"

text \<open>
  Lines 124-134: \<open>torch.cat\<close> of the six blocks along the columns. In
  \<open>generate_batch\<close> the six blocks have \<open>bs\<close> rows each.
\<close>

definition cat_blocks ::
  "int list list \<Rightarrow> int list list \<Rightarrow> int list list \<Rightarrow> int list list \<Rightarrow> int list list
   \<Rightarrow> int list list \<Rightarrow> int list list" where
  "cat_blocks in_digits0 separators in_digits1 ends out_digits eoss =
     map (\<lambda>(r0, s, r1, e, ro, z). r0 @ s @ r1 @ e @ ro @ z)
         (zip in_digits0 (zip separators (zip in_digits1 (zip ends (zip out_digits eoss)))))"

definition generate_batch :: "AdditionDataset \<Rightarrow> nat \<Rightarrow> draws \<Rightarrow> error + int list list" where
  "generate_batch self bs rnd =
     (case generate_blocks self bs rnd of
        Inl e \<Rightarrow> Inl e
      | Inr (in_digits0, in_digits1, out_digits) \<Rightarrow>
     (case leading_zeros_to_padding out_digits (padding_token self) of
        Inl e \<Rightarrow> Inl e
      | Inr out_digits' \<Rightarrow>
     (case leading_zeros_to_padding in_digits0 (padding_token self) of
        Inl e \<Rightarrow> Inl e
      | Inr in_digits0' \<Rightarrow>
     (case leading_zeros_to_padding in_digits1 (padding_token self) of
        Inl e \<Rightarrow> Inl e
      | Inr in_digits1' \<Rightarrow>
     (case full bs (separator_token self) of
        Inl e \<Rightarrow> Inl e
      | Inr separators \<Rightarrow>
     (case full bs (end_token self) of
        Inl e \<Rightarrow> Inl e
      | Inr ends \<Rightarrow>
     (case full bs (eos_token self) of
        Inl e \<Rightarrow> Inl e
      | Inr eoss \<Rightarrow>
          Inr (move_padding_to_end
                 (cat_blocks in_digits0' separators in_digits1' ends out_digits' eoss)
                 (padding_token self)))))))))"

section \<open>The training driver (train.py, lines 135-165)\<close>

text \<open>
  \<open>time_to_success\<close> is a \<open>collections.Counter\<close>: a dictionary whose missing keys
  read as \<open>0\<close>. The driver state is the dataset, whose \<open>number_length\<close> the loop
  mutates, and the counter. The training and validation steps of an epoch (lines
  137-155) belong to the external model; what the curriculum reads from them is the mean
  validation accuracy \<open>acc\<close> of the epoch, an argument of the model here, and the
  accuracies of a run are the list \<open>accs\<close>, one per epoch of \<open>range(args.epochs)\<close>.
  An exception raised inside an epoch ends the run after the epochs completed so far.
\<close>

definition counter_get :: "(nat \<rightharpoonup> int) \<Rightarrow> nat \<Rightarrow> int" where
  "counter_get c k = (case c k of None \<Rightarrow> 0 | Some v \<Rightarrow> v)"

definition counter_incr :: "(nat \<rightharpoonup> int) \<Rightarrow> nat \<Rightarrow> (nat \<rightharpoonup> int)" where
  "counter_incr c k = c(k \<mapsto> counter_get c k + 1)"

record driver =
  dataset :: AdditionDataset
  time_to_success :: "nat \<rightharpoonup> int"

text \<open>Lines 157-165: the end of one epoch.\<close>

definition epoch :: "real \<Rightarrow> driver \<Rightarrow> driver" where
  "epoch acc s =
     (let s1 = s\<lparr>time_to_success := counter_incr (time_to_success s) (number_length (dataset s))\<rparr>
      in if acc > 9 / 10
         then s1\<lparr>dataset := (dataset s1)\<lparr>number_length := number_length (dataset s1) + 1\<rparr>\<rparr>
         else s1)"

definition epochs_loop :: "real list \<Rightarrow> driver \<Rightarrow> driver" where
  "epochs_loop accs s = foldl (\<lambda>s acc. epoch acc s) s accs"

definition manual_training :: "real list \<Rightarrow> AdditionDataset \<Rightarrow> driver" where
  "manual_training accs ds = epochs_loop accs \<lparr>dataset = ds, time_to_success = Map.empty\<rparr>"

section \<open>The entry point (train.py, lines 19-99)\<close>

text \<open>
  Python binds the arguments of a call to the parameters of the function: positional
  arguments in order, then each keyword argument to the parameter of its name. A
  function without defaults, \<open>*args\<close> or \<open>**kwargs\<close>, as \<open>AdditionDataset.__init__\<close>
  is, raises \<open>TypeError\<close> for too many positional arguments, for a keyword that names
  no parameter, for a parameter bound twice and for a parameter left unbound.
\<close>

fun bind_positional ::
  "string list \<Rightarrow> int list \<Rightarrow> error + ((string \<times> int) list \<times> string list)" where
  "bind_positional params [] = Inr ([], params)"
| "bind_positional [] (v # vs) = Inl TypeError"
| "bind_positional (p # ps) (v # vs) =
     (case bind_positional ps vs of
        Inl e \<Rightarrow> Inl e
      | Inr (bound, rest) \<Rightarrow> Inr ((p, v) # bound, rest))"

fun bind_keywords ::
  "string list \<Rightarrow> (string \<times> int) list \<Rightarrow> (string \<times> int) list \<Rightarrow> error + (string \<times> int) list" where
  "bind_keywords params bound [] = Inr bound"
| "bind_keywords params bound ((k, v) # kwargs) =
     (if k \<notin> set params then Inl TypeError
      else if k \<in> set (map fst bound) then Inl TypeError
      else bind_keywords params ((k, v) # bound) kwargs)"

definition bind_arguments ::
  "string list \<Rightarrow> int list \<Rightarrow> (string \<times> int) list \<Rightarrow> error + (string \<rightharpoonup> int)" where
  "bind_arguments params args kwargs =
     (case bind_positional params args of
        Inl e \<Rightarrow> Inl e
      | Inr (bound, rest) \<Rightarrow>
          (case bind_keywords params bound kwargs of
             Inl e \<Rightarrow> Inl e
           | Inr bound' \<Rightarrow>
               if set params \<subseteq> set (map fst bound') then Inr (map_of bound')
               else Inl TypeError))"

text \<open>The parameters of \<open>AdditionDataset.__init__\<close> after \<open>self\<close> (dataset.py, lines 81-82).\<close>

definition AdditionDataset_params :: "string list" where
  "AdditionDataset_params = [''num_samples'', ''base'', ''number_length'']"

definition AdditionDataset_call :: "int list \<Rightarrow> (string \<times> int) list \<Rightarrow> error + AdditionDataset" where
  "AdditionDataset_call args kwargs =
     (case bind_arguments AdditionDataset_params args kwargs of
        Inl e \<Rightarrow> Inl e
      | Inr env \<Rightarrow>
          (case (env ''num_samples'', env ''base'', env ''number_length'') of
             (Some n, Some b, Some l) \<Rightarrow> Inr (AdditionDataset_init n b (nat l))
           | _ \<Rightarrow> Inl TypeError))"

text \<open>
  \<open>main\<close> (lines 19-99). Line 21 sets an option of the tensor library. Lines 23-71
  build the argument parser and call \<open>parser.parse_args()\<close> on the command line
  \<open>argv\<close>: \<open>argparse\<close> either returns the namespace \<open>args\<close> or ends the program
  with \<open>SystemExit\<close> (exit code 0 after printing the help for \<open>-h\<close> or \<open>--help\<close>,
  exit code 2 for an unknown flag or a bad value). The parser of the library, the model
  class and the training function are arguments of the model, since \<open>argparse\<close> and
  \<open>AdditionModel\<close> are outside these sources. The result is the list of steps
  completed and how \<open>main\<close> ended.
\<close>

datatype step = ArgumentsParsed | DatasetConstructed | ModelConstructed | TrainingDone

definition main ::
  "string list \<Rightarrow> (string list \<Rightarrow> error + 'args)
     \<Rightarrow> (AdditionDataset \<Rightarrow> 'args \<Rightarrow> error + 'model)
     \<Rightarrow> ('model \<Rightarrow> AdditionDataset \<Rightarrow> 'args \<Rightarrow> error + unit)
     \<Rightarrow> step list \<times> (error + unit)" where
  "main argv parse_args AdditionModel training =
     (case parse_args argv of
        Inl e \<Rightarrow> ([], Inl e)
      | Inr args \<Rightarrow>
     (case AdditionDataset_call [10 ^ 6]
             [(''base'', 10), (''number_length'', 1), (''sequence_length'', 2)] of
        Inl e \<Rightarrow> ([ArgumentsParsed], Inl e)
      | Inr ds \<Rightarrow>
     (case AdditionModel ds args of
        Inl e \<Rightarrow> ([ArgumentsParsed, DatasetConstructed], Inl e)
      | Inr model \<Rightarrow>
     (case training model ds args of
        Inl e \<Rightarrow> ([ArgumentsParsed, DatasetConstructed, ModelConstructed], Inl e)
      | Inr u \<Rightarrow>
          ([ArgumentsParsed, DatasetConstructed, ModelConstructed, TrainingDone], Inr u)))))"

section \<open>Theorems: the integer codec\<close>

lemma int_div_less_bound:
  assumes "0 < (b::int)" "n < b * c"
  shows "n div b < c"
proof (rule ccontr)
  assume "\<not> n div b < c"
  then have "c \<le> n div b" by simp
  then have "b * c \<le> b * (n div b)" using assms(1) by (simp add: mult_left_mono)
  also have "\<dots> \<le> n"
    using assms(1) by (metis add.commute le_add_same_cancel2 mult_div_mod_eq pos_mod_sign)
  finally show False using assms(2) by simp
qed

lemma int_div_ge_bound:
  assumes "0 < (b::int)" "b * c \<le> n"
  shows "c \<le> n div b"
proof -
  have "(b * c) div b \<le> n div b" using assms(2) assms(1) by (rule zdiv_mono1)
  then show ?thesis using assms(1) by simp
qed

lemma digit_map_shift:
  assumes "0 < (b::int)"
  shows "map (\<lambda>i. (n div b) div b ^ i mod b) [0..<k] = map (\<lambda>i. n div b ^ i mod b) [Suc 0..<Suc k]"
proof -
  have "map (\<lambda>i. n div b ^ i mod b) [Suc 0..<Suc k] = map (\<lambda>i. n div b ^ Suc i mod b) [0..<k]"
    by (simp add: map_Suc_upt [symmetric] del: upt_Suc)
  also have "\<dots> = map (\<lambda>i. (n div b) div b ^ i mod b) [0..<k]"
    using assms by (simp add: zdiv_zmult2_eq)
  finally show ?thesis by simp
qed

lemma int_to_digits_loop_digits:
  assumes "2 \<le> b"
  shows "0 \<le> n \<Longrightarrow> n < b ^ k \<Longrightarrow> (k = 0 \<or> b ^ (k - 1) \<le> n) \<Longrightarrow>
         int_to_digits_loop acc n b = Some (Inr (acc @ map (\<lambda>i. (n div b ^ i) mod b) [0..<k]))"
proof (induction k arbitrary: n acc)
  case 0
  then have "n = 0" by simp
  then show ?case by (simp add: int_to_digits_loop.simps)
next
  case (Suc k)
  have bpos: "0 < b" using assms by simp
  have "0 < b ^ k" using bpos by simp
  with Suc.prems have npos: "0 < n" by simp
  have d0: "0 \<le> n div b" using Suc.prems(1) bpos by (simp add: pos_imp_zdiv_nonneg_iff)
  have d1: "n div b < b ^ k"
    using Suc.prems(2) bpos by (simp add: int_div_less_bound)
  have d2: "k = 0 \<or> b ^ (k - 1) \<le> n div b"
  proof (cases k)
    case 0
    then show ?thesis by simp
  next
    case (Suc j)
    with Suc.prems(3) have "b * b ^ j \<le> n" by simp
    then have "b ^ j \<le> n div b" using bpos by (simp add: int_div_ge_bound)
    with Suc show ?thesis by simp
  qed
  have "int_to_digits_loop acc n b = int_to_digits_loop (acc @ [n mod b]) (n div b) b"
    using npos bpos by (subst int_to_digits_loop.simps) simp
  also have "\<dots> = Some (Inr ((acc @ [n mod b]) @ map (\<lambda>i. (n div b) div b ^ i mod b) [0..<k]))"
    by (rule Suc.IH [OF d0 d1 d2])
  also have "(acc @ [n mod b]) @ map (\<lambda>i. (n div b) div b ^ i mod b) [0..<k]
             = acc @ map (\<lambda>i. n div b ^ i mod b) [0..<Suc k]"
    by (simp add: digit_map_shift [OF bpos] upt_conv_Cons del: upt_Suc)
  finally show ?case .
qed

text \<open>
  The number of base-\<open>b\<close> digits of a positive \<open>n\<close>: the least \<open>k\<close> with \<open>n < b ^ k\<close>.
\<close>

lemma ex_digit_count:
  assumes "2 \<le> (b::int)" "0 < n"
  shows "\<exists>k. 0 < k \<and> b ^ (k - 1) \<le> n \<and> n < b ^ k"
proof -
  have "n < b ^ nat n"
  proof -
    have "nat n < 2 ^ nat n" by (rule less_exp)
    then have "int (nat n) < int (2 ^ nat n)" by (simp only: of_nat_less_iff)
    then have "int (nat n) < 2 ^ nat n" by simp
    also have "(2::int) ^ nat n \<le> b ^ nat n" using assms(1) by (simp add: power_mono)
    finally show ?thesis using assms(2) by simp
  qed
  then have ex: "\<exists>k. n < b ^ k" ..
  define k where "k = (LEAST k. n < b ^ k)"
  have lt: "n < b ^ k" unfolding k_def using ex by (rule LeastI_ex)
  have kpos: "0 < k"
  proof (rule ccontr)
    assume "\<not> 0 < k"
    with lt assms(2) show False by simp
  qed
  have "\<not> n < b ^ (k - 1)"
  proof
    assume "n < b ^ (k - 1)"
    then have "k \<le> k - 1" unfolding k_def by (rule Least_le)
    with kpos show False by simp
  qed
  with lt kpos show ?thesis by auto
qed

lemma foldl_digits_value:
  "foldl (\<lambda>n digit. n * b + digit) a (rev (map (\<lambda>i. (n div b ^ i) mod b) [0..<k]))
   = a * b ^ k + (\<Sum>i<k. ((n div b ^ i) mod b) * b ^ i)" for b :: int
proof (induction k arbitrary: a)
  case 0
  show ?case by simp
next
  case (Suc k)
  have "foldl (\<lambda>n digit. n * b + digit) a
          (rev (map (\<lambda>i. (n div b ^ i) mod b) [0..<Suc k]))
        = (a * b + (n div b ^ k) mod b) * b ^ k + (\<Sum>i<k. ((n div b ^ i) mod b) * b ^ i)"
    by (simp add: Suc.IH)
  also have "\<dots> = a * b ^ Suc k + (\<Sum>i<Suc k. ((n div b ^ i) mod b) * b ^ i)"
    by (simp add: algebra_simps)
  finally show ?case .
qed

lemma digit_sum_mod:
  assumes "0 < (b::int)"
  shows "(\<Sum>i<k. ((n div b ^ i) mod b) * b ^ i) = n mod b ^ k"
proof (induction k)
  case 0
  show ?case by simp
next
  case (Suc k)
  have "n mod (b ^ k * b) = b ^ k * (n div b ^ k mod b) + n mod b ^ k"
    using assms by (simp add: zmod_zmult2_eq)
  with Suc show ?case by (simp add: mult.commute)
qed

text \<open>
  C3. For every integer \<open>n \<ge> 0\<close> and base \<open>b \<ge> 2\<close>, \<open>int_to_digits\<close> returns (the
  loop ends and nothing is raised) a digit list \<open>ds\<close> with
  \<open>digits_to_int ds b = n\<close>; the list is least-significant-digit first (its \<open>i\<close>-th
  element is \<open>(n div b ^ i) mod b\<close>), and it is \<open>[0]\<close> when \<open>n = 0\<close>.
\<close>

theorem int_to_digits_roundtrip:
  assumes "0 \<le> n" "2 \<le> b"
  shows "\<exists>ds. int_to_digits n b = Some (Inr ds)
            \<and> digits_to_int ds b = n
            \<and> ds = map (\<lambda>i. (n div b ^ i) mod b) [0..<length ds]
            \<and> ds \<noteq> []
            \<and> (if n = 0 then ds = [0] else last ds \<noteq> 0)"
proof (cases "n = 0")
  case True
  then show ?thesis
    by (simp add: int_to_digits_def int_to_digits_loop.simps digits_to_int_def)
next
  case False
  with assms have npos: "0 < n" by simp
  have bpos: "0 < b" using assms(2) by simp
  from ex_digit_count [OF assms(2) npos]
  obtain k where k: "0 < k" "b ^ (k - 1) \<le> n" "n < b ^ k" by blast
  define ds where "ds = map (\<lambda>i. (n div b ^ i) mod b) [0..<k]"
  have len: "length ds = k" by (simp add: ds_def)
  have loop: "int_to_digits_loop [] n b = Some (Inr ds)"
    using int_to_digits_loop_digits [OF assms(2) assms(1) k(3), of "[]"] k(2)
    by (simp add: ds_def)
  have ne: "ds \<noteq> []" using k(1) len by auto
  have run: "int_to_digits n b = Some (Inr ds)"
    using loop ne by (simp add: int_to_digits_def)
  have "digits_to_int ds b = n mod b ^ k"
    unfolding digits_to_int_def ds_def
    by (simp add: foldl_digits_value digit_sum_mod [OF bpos])
  also have "\<dots> = n" using assms(1) k(3) by simp
  finally have val: "digits_to_int ds b = n" .
  have "last ds = (n div b ^ (k - 1)) mod b"
    using k(1) by (simp add: ds_def last_map last_upt del: upt_Suc) 
  moreover have "1 \<le> n div b ^ (k - 1)"
    using k(2) bpos int_div_ge_bound [of "b ^ (k - 1)" 1 n] by simp
  moreover have "n div b ^ (k - 1) < b"
  proof -
    have "b ^ k = b ^ (k - 1) * b" using k(1) by (cases k) simp_all
    with k(3) bpos show ?thesis by (simp add: int_div_less_bound)
  qed
  ultimately have lastnz: "last ds \<noteq> 0" by simp
  show ?thesis
    using run val ne lastnz False len by (auto simp: ds_def)
qed

theorem int_to_digits_roundtrip_witness:
  "int_to_digits 1234 10 = Some (Inr [4, 3, 2, 1]) \<and> digits_to_int [4, 3, 2, 1] 10 = 1234
   \<and> int_to_digits 0 10 = Some (Inr [0])"
proof -
  have a: "int_to_digits 1234 10 = Some (Inr [4, 3, 2, 1])"
    by (simp add: int_to_digits_def int_to_digits_loop.simps)
  have b: "int_to_digits 0 10 = Some (Inr [0])"
    by (simp add: int_to_digits_def int_to_digits_loop.simps)
  from int_to_digits_roundtrip [of 1234 10] a b show ?thesis by simp
qed

section \<open>Theorems: the batched codec\<close>

lemma wrap64_id: "- (2 ^ 63) \<le> x \<Longrightarrow> x < 2 ^ 63 \<Longrightarrow> wrap64 x = x"
  by (simp add: wrap64_def)

lemma traverse_Inr_map:
  "(\<And>x. x \<in> set xs \<Longrightarrow> f x = Inr (g x)) \<Longrightarrow> traverse f xs = Inr (map g xs)"
  by (induction xs) simp_all

lemma traverse_length: "traverse f xs = Inr ys \<Longrightarrow> length ys = length xs"
  by (induction xs arbitrary: ys) (auto split: sum.splits)

lemma pow_arange_exact:
  assumes "1 \<le> b" "b ^ (L - 1) < 2 ^ 63"
  shows "pow_arange b L = map (\<lambda>k. b ^ k) (rev [0..<L])"
proof -
  have "wrap64 (b ^ k) = b ^ k" if "k < L" for k
  proof -
    have "b ^ k \<le> b ^ (L - 1)" using assms(1) that by (simp add: power_increasing)
    with assms(2) have "b ^ k < 2 ^ 63" by simp
    moreover have "0 \<le> b ^ k" using assms(1) by simp
    ultimately show ?thesis by (simp add: wrap64_id)
  qed
  then show ?thesis by (simp add: pow_arange_def)
qed

lemma div_pow_bounds:
  assumes "1 \<le> (b::int)" "0 \<le> x"
  shows "0 \<le> x div b ^ k" "x div b ^ k \<le> x"
proof -
  have p: "0 < b ^ k" using assms(1) by simp
  show "0 \<le> x div b ^ k" using p assms(2) by (simp add: pos_imp_zdiv_nonneg_iff)
  have "x div b ^ k \<le> x div 1" using assms(2) p by (intro zdiv_mono2) simp_all
  then show "x div b ^ k \<le> x" by simp
qed

text \<open>The digit grid of a batch, where nothing wraps: most significant digit first.\<close>

lemma numbers_to_digits_exact:
  assumes "2 \<le> b" "b ^ (L - 1) < 2 ^ 63" "\<And>x. x \<in> set xs \<Longrightarrow> 0 \<le> x \<and> x < 2 ^ 63"
  shows "numbers_to_digits xs b L
         = Inr (map (\<lambda>x. map (\<lambda>k. (x div b ^ k) mod b) (rev [0..<L])) xs)"
proof -
  have b1: "1 \<le> b" using assms(1) by simp
  have bases: "pow_arange b L = map (\<lambda>k. b ^ k) (rev [0..<L])"
    using b1 assms(2) by (rule pow_arange_exact)
  have cell: "(case xw of (x', w) \<Rightarrow> floor_divide x' w) = Inr (fst xw div snd xw)"
    if "x \<in> set xs" "xw \<in> set (zip (replicate L x) (map (\<lambda>k. b ^ k) (rev [0..<L])))" for x xw
  proof -
    from that(2) obtain k where xw: "xw = (x, b ^ k)"
      by (auto simp: set_zip)
    have "0 < b ^ k" using b1 by simp
    moreover have "0 \<le> x div b ^ k" "x div b ^ k \<le> x"
      using div_pow_bounds [OF b1, of x k] assms(3) [OF that(1)] by simp_all
    moreover have "x < 2 ^ 63" using assms(3) [OF that(1)] by simp
    ultimately show ?thesis using b1 by (simp add: xw floor_divide_def wrap64_id)
  qed
  have rowq: "traverse (\<lambda>(x', w). floor_divide x' w) (zip (replicate L x) (map (\<lambda>k. b ^ k) (rev [0..<L])))
              = Inr (map (\<lambda>k. x div b ^ k) (rev [0..<L]))" if "x \<in> set xs" for x
  proof -
    have "traverse (\<lambda>(x', w). floor_divide x' w) (zip (replicate L x) (map (\<lambda>k. b ^ k) (rev [0..<L])))
          = Inr (map (\<lambda>xw. fst xw div snd xw) (zip (replicate L x) (map (\<lambda>k. b ^ k) (rev [0..<L]))))"
      by (rule traverse_Inr_map) (rule cell [OF that])
    also have "map (\<lambda>xw. fst xw div snd xw) (zip (replicate L x) (map (\<lambda>k. b ^ k) (rev [0..<L])))
               = map (\<lambda>k. x div b ^ k) (rev [0..<L])"
      by (rule nth_equalityI) simp_all
    finally show ?thesis .
  qed
  have q: "traverse (\<lambda>row. traverse (\<lambda>(x', w). floor_divide x' w) (zip row (pow_arange b L)))
             (map (replicate L) xs)
           = Inr (map (\<lambda>x. map (\<lambda>k. x div b ^ k) (rev [0..<L])) xs)"
  proof -
    have "traverse (\<lambda>row. traverse (\<lambda>(x', w). floor_divide x' w) (zip row (pow_arange b L)))
             (map (replicate L) xs)
          = Inr (map (\<lambda>row. map (\<lambda>k. hd row div b ^ k) (rev [0..<L])) (map (replicate L) xs))"
    proof (rule traverse_Inr_map)
      fix row assume "row \<in> set (map (replicate L) xs)"
      then obtain x where x: "x \<in> set xs" "row = replicate L x" by auto
      show "traverse (\<lambda>(x', w). floor_divide x' w) (zip row (pow_arange b L))
            = Inr (map (\<lambda>k. hd row div b ^ k) (rev [0..<L]))"
      proof (cases L)
        case 0
        then show ?thesis by (simp add: pow_arange_def)
      next
        case (Suc n)
        then have "hd row = x" using x(2) by simp
        then show ?thesis using rowq [OF x(1)] by (simp add: bases x(2))
      qed
    qed
    also have "map (\<lambda>row. map (\<lambda>k. hd row div b ^ k) (rev [0..<L])) (map (replicate L) xs)
               = map (\<lambda>x. map (\<lambda>k. x div b ^ k) (rev [0..<L])) xs"
    proof (cases L)
      case 0
      then show ?thesis by simp
    next
      case (Suc n)
      then show ?thesis by simp
    qed
    finally show ?thesis .
  qed
  have r: "traverse (traverse (\<lambda>q. remainder q b)) (map (\<lambda>x. map (\<lambda>k. x div b ^ k) (rev [0..<L])) xs)
           = Inr (map (map (\<lambda>q. q mod b)) (map (\<lambda>x. map (\<lambda>k. x div b ^ k) (rev [0..<L])) xs))"
  proof (rule traverse_Inr_map)
    fix row
    show "traverse (\<lambda>q. remainder q b) row = Inr (map (\<lambda>q. q mod b) row)"
      using assms(1) by (intro traverse_Inr_map) (simp add: remainder_def)
  qed
  show ?thesis
    unfolding numbers_to_digits_def Let_def q using r by (simp add: comp_def)
qed

lemma sum_list_nonneg_member_le:
  fixes xs :: "int list"
  assumes "\<And>y. y \<in> set xs \<Longrightarrow> 0 \<le> y" "x \<in> set xs"
  shows "x \<le> sum_list xs"
  using assms
proof (induction xs)
  case Nil
  then show ?case by simp
next
  case (Cons a xs)
  have nn: "0 \<le> sum_list xs" using Cons.prems(1) by (intro sum_list_nonneg) simp
  show ?case
  proof (cases "x = a")
    case True
    with nn show ?thesis by simp
  next
    case False
    with Cons.prems(2) have "x \<in> set xs" by simp
    then have "x \<le> sum_list xs" using Cons.prems(1) by (intro Cons.IH) simp_all
    moreover have "0 \<le> a" using Cons.prems(1) by simp
    ultimately show ?thesis by simp
  qed
qed

lemma map_wrap64_id:
  "(\<And>y. y \<in> set ys \<Longrightarrow> - (2 ^ 63) \<le> y \<and> y < 2 ^ 63) \<Longrightarrow> map wrap64 ys = ys"
  by (induction ys) (simp_all add: wrap64_id)

text \<open>The value of a batch of digit rows, where nothing wraps.\<close>

lemma digits_to_numbers_exact:
  assumes "1 \<le> b"
    and "\<And>row. row \<in> set digits \<Longrightarrow>
           b ^ (length row - 1) < 2 ^ 63 \<and> (\<forall>d \<in> set row. 0 \<le> d)
           \<and> sum_list (map2 (\<lambda>d w. d * w) row (map (\<lambda>k. b ^ k) (rev [0..<length row]))) < 2 ^ 63"
  shows "digits_to_numbers digits b
         = map (\<lambda>row. sum_list (map2 (\<lambda>d w. d * w) row (map (\<lambda>k. b ^ k) (rev [0..<length row]))))
               digits"
proof -
  have "wrap64 (sum_list (map2 (\<lambda>d w. wrap64 (d * w)) row (pow_arange b (length row))))
        = sum_list (map2 (\<lambda>d w. d * w) row (map (\<lambda>k. b ^ k) (rev [0..<length row])))"
    if "row \<in> set digits" for row
  proof -
    let ?ws = "map (\<lambda>k. b ^ k) (rev [0..<length row])"
    let ?ps = "map2 (\<lambda>d w. d * w) row ?ws"
    from assms(2) [OF that] have fit: "b ^ (length row - 1) < 2 ^ 63"
      and nn: "\<forall>d \<in> set row. 0 \<le> d" and small: "sum_list ?ps < 2 ^ 63" by simp_all
    have bases: "pow_arange b (length row) = ?ws" using assms(1) fit by (rule pow_arange_exact)
    have pnn: "0 \<le> p" if "p \<in> set ?ps" for p
    proof -
      from that obtain d w where dw: "(d, w) \<in> set (zip row ?ws)" and p: "p = d * w"
        by auto
      from dw have "d \<in> set row" by (rule set_zip_leftD)
      moreover from dw have "w \<in> set ?ws" by (rule set_zip_rightD)
      then have "0 \<le> w" using assms(1) by auto
      ultimately show ?thesis using nn p by simp
    qed
    have "p \<le> sum_list ?ps" if "p \<in> set ?ps" for p
      using pnn that by (rule sum_list_nonneg_member_le)
    with small pnn have w1: "map wrap64 ?ps = ?ps"
      by (intro map_wrap64_id) force
    have w2: "map2 (\<lambda>d w. wrap64 (d * w)) row ?ws = map wrap64 ?ps"
      by (simp add: split_def)
    have eq: "map2 (\<lambda>d w. wrap64 (d * w)) row ?ws = ?ps"
      by (rule trans [OF w2 w1])
    have "0 \<le> sum_list ?ps" using pnn by (rule sum_list_nonneg)
    then have "wrap64 (sum_list ?ps) = sum_list ?ps" using small by (simp add: wrap64_id)
    then show ?thesis by (simp only: bases eq)
  qed
  then show ?thesis by (simp add: digits_to_numbers_def Let_def)
qed

lemma digit_row_value:
  assumes "0 < (b::int)"
  shows "sum_list (map2 (\<lambda>d w. d * w) (map (\<lambda>k. (x div b ^ k) mod b) (rev [0..<L]))
                        (map (\<lambda>k. b ^ k) (rev [0..<L])))
         = x mod b ^ L"
proof -
  have "sum_list (map2 (\<lambda>d w. d * w) (map (\<lambda>k. (x div b ^ k) mod b) (rev [0..<L]))
                        (map (\<lambda>k. b ^ k) (rev [0..<L])))
        = sum_list (rev (map (\<lambda>k. ((x div b ^ k) mod b) * b ^ k) [0..<L]))"
    by (simp add: map2_map_map rev_map)
  also have "\<dots> = (\<Sum>k<L. ((x div b ^ k) mod b) * b ^ k)"
    by (simp add: sum_list_rev interv_sum_list_conv_sum_set_nat atLeast0LessThan del: rev_rev_ident)
  also have "\<dots> = x mod b ^ L" using assms by (rule digit_sum_mod)
  finally show ?thesis .
qed

lemma batched_roundtrip_rows:
  assumes "2 \<le> b" "b < 2 ^ 63" "b ^ (L - 1) < 2 ^ 63"
    and "\<forall>x \<in> set xs. 0 \<le> x \<and> x < b ^ L \<and> x < 2 ^ 63"
  shows "numbers_to_digits xs b L = Inr (map (\<lambda>x. map (\<lambda>k. (x div b ^ k) mod b) (rev [0..<L])) xs)"
    and "digits_to_numbers (map (\<lambda>x. map (\<lambda>k. (x div b ^ k) mod b) (rev [0..<L])) xs) b = xs"
proof -
  let ?row = "\<lambda>x. map (\<lambda>k. (x div b ^ k) mod b) (rev [0..<L])"
  have bpos: "0 < b" and b1: "1 \<le> b" using assms(1) by simp_all
  show enc: "numbers_to_digits xs b L = Inr (map ?row xs)"
    using assms(1) assms(3) assms(4) by (intro numbers_to_digits_exact) simp_all
  have val: "sum_list (map2 (\<lambda>d w. d * w) (?row x) (map (\<lambda>k. b ^ k) (rev [0..<length (?row x)]))) = x"
    if "x \<in> set xs" for x
    using digit_row_value [OF bpos, of x L] assms(4) that by simp
  have "digits_to_numbers (map ?row xs) b
        = map (\<lambda>row. sum_list (map2 (\<lambda>d w. d * w) row (map (\<lambda>k. b ^ k) (rev [0..<length row]))))
              (map ?row xs)"
  proof (rule digits_to_numbers_exact [OF b1])
    fix row assume "row \<in> set (map ?row xs)"
    then obtain x where x: "x \<in> set xs" "row = ?row x" by auto
    have "\<forall>d \<in> set row. 0 \<le> d" using bpos by (auto simp: x(2))
    moreover have "length row = L" by (simp add: x(2))
    moreover have "sum_list (map2 (\<lambda>d w. d * w) row (map (\<lambda>k. b ^ k) (rev [0..<length row]))) < 2 ^ 63"
      using val [OF x(1)] assms(4) x by simp
    ultimately show "b ^ (length row - 1) < 2 ^ 63 \<and> (\<forall>d \<in> set row. 0 \<le> d)
           \<and> sum_list (map2 (\<lambda>d w. d * w) row (map (\<lambda>k. b ^ k) (rev [0..<length row]))) < 2 ^ 63"
      using assms(3) by simp
  qed
  also have "\<dots> = xs"
    using val by (simp add: comp_def map_idI del: length_map length_rev length_upt)
  finally show "digits_to_numbers (map ?row xs) b = xs" .
qed


text \<open>
  C4, as the code has it. The positional weights \<open>base ^ k\<close> are int64 values, so the
  round trip needs more than a \<open>max_length\<close> that is large enough: for every base
  \<open>2 \<le> b < 2 ^ 63\<close> and every \<open>L\<close> whose largest weight \<open>b ^ (L - 1)\<close> fits in
  int64, every batch \<open>xs\<close> of int64 values with \<open>0 \<le> x < b ^ L\<close> is encoded without
  an error and decoded to \<open>xs\<close>.
\<close>

theorem batched_roundtrip_in_int64:
  assumes "2 \<le> b" "b < 2 ^ 63" "b ^ (L - 1) < 2 ^ 63"
    and "\<forall>x \<in> set xs. 0 \<le> x \<and> x < b ^ L \<and> x < 2 ^ 63"
  shows "\<exists>ds. numbers_to_digits xs b L = Inr ds \<and> digits_to_numbers ds b = xs"
  using batched_roundtrip_rows [OF assms] by simp

theorem batched_roundtrip_in_int64_witness:
  "numbers_to_digits [10, 2] 10 3 = Inr [[0, 1, 0], [0, 0, 2]]
   \<and> digits_to_numbers [[0, 1, 0], [0, 0, 2]] 10 = [10, 2]"
proof -
  have enc: "numbers_to_digits [10, 2] 10 3 = Inr [[0, 1, 0], [0, 0, 2]]"
    by (simp add: numbers_to_digits_def pow_arange_def floor_divide_def remainder_def wrap64_def
        upt_conv_Cons numeral_3_eq_3)
  from batched_roundtrip_in_int64 [of 10 3 "[10, 2]"] enc show ?thesis by simp
qed

text \<open>
  The claim as stated fails once a weight wraps: base \<open>2 ^ 32 + 1\<close>, three columns.
  The largest weight \<open>(2 ^ 32 + 1) ^ 2\<close> wraps to \<open>2 ^ 33 + 1\<close>; the value
  \<open>2 ^ 33 + 1\<close> fits in three digits of that base, is encoded as
  \<open>[1, 1, 2 ^ 32]\<close> and decoded to twice itself.
\<close>

theorem batched_roundtrip_counterexample:
  "(2::int) \<le> 4294967297 \<and> (0::int) \<le> 8589934593 \<and> (8589934593::int) < 4294967297 ^ 3
   \<and> numbers_to_digits [8589934593] 4294967297 3 = Inr [[1, 1, 4294967296]]
   \<and> digits_to_numbers [[1, 1, 4294967296]] 4294967297 = [17179869186]
   \<and> [17179869186] \<noteq> [8589934593 :: int]"
  by (simp add: numbers_to_digits_def digits_to_numbers_def pow_arange_def floor_divide_def
      remainder_def wrap64_def upt_conv_Cons numeral_3_eq_3)

section \<open>Theorems: moving the padding to the end\<close>

lemma sorting_keys_nth:
  assumes "i < length row"
  shows "sorting_keys row p ! i = (if row ! i \<noteq> p then int i else int (length row))"
  using assms by (simp add: sorting_keys_def)

lemma length_sorting_keys: "length (sorting_keys row p) = length row"
  by (simp add: sorting_keys_def)

lemma filter_partition_same_side:
  assumes "\<And>x. x \<in> set xs \<Longrightarrow> Q x \<Longrightarrow> P x"
  shows "filter Q (filter P xs @ filter (\<lambda>x. \<not> P x) xs) = filter Q xs"
proof -
  have "filter Q (filter P xs) = filter Q xs"
    using assms by (induction xs) auto
  moreover have "filter Q (filter (\<lambda>x. \<not> P x) xs) = []"
    using assms by (induction xs) auto
  ultimately show ?thesis by simp
qed

lemma filter_partition_other_side:
  assumes "\<And>x. x \<in> set xs \<Longrightarrow> Q x \<Longrightarrow> \<not> P x"
  shows "filter Q (filter P xs @ filter (\<lambda>x. \<not> P x) xs) = filter Q xs"
proof -
  have "filter Q (filter P xs) = []"
    using assms by (induction xs) auto
  moreover have "filter Q (filter (\<lambda>x. \<not> P x) xs) = filter Q xs"
    using assms by (induction xs) auto
  ultimately show ?thesis by simp
qed

lemma mset_filter_partition: "mset (filter P xs @ filter (\<lambda>x. \<not> P x) xs) = mset xs"
  by (induction xs) simp_all

text \<open>The indices that sort a row: the non-padding positions in order, then the padding ones.\<close>

lemma argsort_sorting_keys:
  "argsort (sorting_keys row p)
   = filter (\<lambda>i. row ! i \<noteq> p) [0..<length row] @ filter (\<lambda>i. \<not> row ! i \<noteq> p) [0..<length row]"
proof -
  let ?n = "length row"
  let ?f = "\<lambda>i. sorting_keys row p ! i"
  let ?P = "\<lambda>i. row ! i \<noteq> p"
  let ?A = "filter ?P [0..<?n]"
  let ?B = "filter (\<lambda>i. \<not> ?P i) [0..<?n]"
  have key: "?f i = (if row ! i \<noteq> p then int i else int ?n)" if "i < ?n" for i
    using that by (rule sorting_keys_nth)
  have m: "mset (?A @ ?B) = mset [0..<?n]"
    by (rule mset_filter_partition)
  have st: "filter (\<lambda>x. ?f k = ?f x) (?A @ ?B) = filter (\<lambda>x. ?f k = ?f x) [0..<?n]"
    if "k \<in> set (?A @ ?B)" for k
  proof -
    from that have kn: "k < ?n" by auto
    show ?thesis
    proof (cases "row ! k \<noteq> p")
      case True
      show ?thesis
      proof (rule filter_partition_same_side)
        fix x assume "x \<in> set [0..<?n]" "?f k = ?f x"
        then show "row ! x \<noteq> p" using True kn by (auto simp: key split: if_splits)
      qed
    next
      case False
      show ?thesis
      proof (rule filter_partition_other_side)
        fix x assume "x \<in> set [0..<?n]" "?f k = ?f x"
        then show "\<not> row ! x \<noteq> p" using False kn by (auto simp: key split: if_splits)
      qed
    qed
  qed
  have mA: "map ?f ?A = map int ?A" by (rule map_cong) (auto simp: key)
  have mB: "map ?f ?B = map (\<lambda>i. int ?n) ?B" by (rule map_cong) (auto simp: key)
  have "sorted_wrt (\<lambda>x y. int x \<le> int y) [0..<?n]"
    by (rule sorted_wrt_mono_rel [OF _ sorted_wrt_upt]) simp
  then have "sorted (map int [0..<?n])" by (simp add: sorted_map)
  then have sA: "sorted (map int ?A)" by (rule sorted_filter)
  have sB: "sorted (map (\<lambda>i. int ?n) ?B)" by (simp add: map_replicate_const)
  have so: "sorted (map ?f (?A @ ?B))"
    unfolding map_append mA mB sorted_append using sA sB by auto
  have "sort_key ?f [0..<?n] = ?A @ ?B"
    using m st so by (rule properties_for_sort_key)
  then show ?thesis by (simp add: argsort_def length_sorting_keys)
qed

lemma gather_filter:
  "map (\<lambda>i. row ! i) (filter (\<lambda>i. Q (row ! i)) [0..<length row]) = filter Q row"
proof -
  have "filter Q (map (\<lambda>i. row ! i) [0..<length row])
        = map (\<lambda>i. row ! i) (filter (Q \<circ> (\<lambda>i. row ! i)) [0..<length row])"
    by (rule filter_map)
  then show ?thesis by (simp add: map_nth comp_def)
qed

lemma filter_eq_replicate: "filter (\<lambda>v. v = p) xs = replicate (count_list xs p) p"
  by (induction xs) simp_all

lemma move_padding_row_eq:
  "move_padding_row row p = filter (\<lambda>v. v \<noteq> p) row @ replicate (count_list row p) p"
proof -
  have "map (\<lambda>i. row ! i) (argsort (sorting_keys row p))
        = map (\<lambda>i. row ! i) (filter (\<lambda>i. row ! i \<noteq> p) [0..<length row])
          @ map (\<lambda>i. row ! i) (filter (\<lambda>i. row ! i = p) [0..<length row])"
    by (simp add: argsort_sorting_keys)
  also have "\<dots> = filter (\<lambda>v. v \<noteq> p) row @ filter (\<lambda>v. v = p) row"
    by (simp only: gather_filter [of row "\<lambda>v. v \<noteq> p"] gather_filter [of row "\<lambda>v. v = p"])
  finally show ?thesis by (simp only: move_padding_row_def Let_def filter_eq_replicate)
qed

lemma move_padding_to_end_rows:
  "move_padding_to_end tensor p
   = map (\<lambda>row. filter (\<lambda>v. v \<noteq> p) row @ replicate (count_list row p) p) tensor"
  by (simp add: move_padding_to_end_def move_padding_row_eq)

text \<open>
  C5. For every 2-D integer tensor and every padding token, each row of the result of
  \<open>move_padding_to_end\<close> is the row's non-padding tokens in their input order,
  followed by the row's padding tokens (as many as the input row holds).
\<close>

theorem move_padding_to_end_stable_partition:
  "move_padding_to_end tensor p
   = map (\<lambda>row. filter (\<lambda>v. v \<noteq> p) row @ replicate (count_list row p) p) tensor"
  by (rule move_padding_to_end_rows)

text \<open>
  The sort of the source need not be stable. Any index order that sorts the keys of a row
  gathers the same row as the stable order of the model.
\<close>

lemma sorted_keys_split:
  assumes "sorted (map f ys)"
    and "\<And>x y. x \<in> set ys \<Longrightarrow> y \<in> set ys \<Longrightarrow> P x \<Longrightarrow> \<not> P y \<Longrightarrow> f x < (f y :: int)"
  shows "ys = filter P ys @ filter (\<lambda>x. \<not> P x) ys"
  using assms
proof (induction ys)
  case Nil
  show ?case by simp
next
  case (Cons a ys)
  have sorted_tl: "sorted (map f ys)" using Cons.prems(1) by simp
  have IH: "ys = filter P ys @ filter (\<lambda>x. \<not> P x) ys"
    using sorted_tl Cons.prems(2) by (intro Cons.IH) simp_all
  show ?case
  proof (cases "P a")
    case True
    then show ?thesis using IH by simp
  next
    case False
    have "\<not> P x" if "x \<in> set ys" for x
    proof
      assume "P x"
      then have "f x < f a" using that False by (intro Cons.prems(2)) simp_all
      moreover have "f a \<le> f x" using Cons.prems(1) that by simp
      ultimately show False by simp
    qed
    then have "filter P ys = []" "filter (\<lambda>x. \<not> P x) ys = ys"
      by (simp_all add: filter_empty_conv filter_id_conv)
    then show ?thesis using False by simp
  qed
qed

lemma gather_any_sorting_order:
  assumes "mset idx = mset [0..<length row]"
    and "sorted (map (\<lambda>i. sorting_keys row p ! i) idx)"
  shows "map (\<lambda>i. row ! i) idx = filter (\<lambda>v. v \<noteq> p) row @ replicate (count_list row p) p"
proof -
  let ?n = "length row"
  let ?f = "\<lambda>i. sorting_keys row p ! i"
  let ?P = "\<lambda>i. row ! i \<noteq> p"
  have set_idx: "set idx = {0..<?n}" using assms(1) by (metis mset_eq_setD set_upt)
  have dist: "distinct idx" using assms(1) by (metis distinct_upt mset_eq_imp_distinct_iff)
  have key: "?f i = (if row ! i \<noteq> p then int i else int ?n)" if "i \<in> set idx" for i
    using that set_idx by (simp add: sorting_keys_nth)
  have parts: "idx = filter ?P idx @ filter (\<lambda>i. \<not> ?P i) idx"
  proof (rule sorted_keys_split [OF assms(2)])
    fix x y assume "x \<in> set idx" "y \<in> set idx" "row ! x \<noteq> p" "\<not> row ! y \<noteq> p"
    then show "?f x < ?f y" using set_idx by (simp add: key)
  qed
  have "sorted (map ?f (filter ?P idx))" using assms(2) by (rule sorted_filter)
  moreover have "map ?f (filter ?P idx) = map int (filter ?P idx)"
    by (rule map_cong) (auto simp: key)
  ultimately have "sorted (map int (filter ?P idx))" by simp
  then have s1: "sorted (filter ?P idx)" by (simp add: sorted_map)
  have s2: "sorted (filter ?P [0..<?n])" by (rule sorted_wrt_filter) simp
  have front: "filter ?P idx = filter ?P [0..<?n]"
    using s1 s2 dist set_idx by (intro sorted_distinct_set_unique) auto
  have "mset (filter (\<lambda>i. \<not> ?P i) idx) = mset (filter (\<lambda>i. \<not> ?P i) [0..<?n])"
    using assms(1) by (simp only: mset_filter)
  then have "length (filter (\<lambda>i. \<not> ?P i) idx) = length (filter (\<lambda>i. row ! i = p) [0..<?n])"
    by (metis (mono_tags, lifting) filter_cong size_mset)
  also have "\<dots> = length (map (\<lambda>i. row ! i) (filter (\<lambda>i. row ! i = p) [0..<?n]))" by simp
  also have "\<dots> = count_list row p"
    by (simp only: gather_filter [of row "\<lambda>v. v = p"] filter_eq_replicate length_replicate)
  finally have len: "length (filter (\<lambda>i. \<not> ?P i) idx) = count_list row p" .
  have "map (\<lambda>i. row ! i) (filter (\<lambda>i. \<not> ?P i) idx)
        = replicate (length (filter (\<lambda>i. \<not> ?P i) idx)) p"
    by (rule replicate_eqI) auto
  then have rear: "map (\<lambda>i. row ! i) (filter (\<lambda>i. \<not> ?P i) idx) = replicate (count_list row p) p"
    by (simp only: len)
  have "map (\<lambda>i. row ! i) idx
        = map (\<lambda>i. row ! i) (filter ?P idx) @ map (\<lambda>i. row ! i) (filter (\<lambda>i. \<not> ?P i) idx)"
    by (subst parts) (simp only: map_append)
  also have "\<dots> = filter (\<lambda>v. v \<noteq> p) row @ replicate (count_list row p) p"
    by (simp only: front rear gather_filter [of row "\<lambda>v. v \<noteq> p"])
  finally show ?thesis .
qed

section \<open>Theorems: leading zeros to padding\<close>

lemma cumsum_length: "length (cumsum acc row) = length row"
  by (induction row arbitrary: acc) simp_all

text \<open>
  Where the running sum does not wrap, it is zero exactly on the leading run of zeros.
\<close>

lemma cumsum_zero_mask:
  assumes "\<And>d. d \<in> set row \<Longrightarrow> 0 \<le> d" "0 \<le> acc" "acc + sum_list row < 2 ^ 63"
  shows "map (\<lambda>c. c = 0) (cumsum acc row)
         = (if acc = 0
            then replicate (length (takeWhile (\<lambda>d. d = 0) row)) True
                 @ replicate (length row - length (takeWhile (\<lambda>d. d = 0) row)) False
            else replicate (length row) False)"
  using assms
proof (induction row arbitrary: acc)
  case Nil
  show ?case by simp
next
  case (Cons x xs)
  have x0: "0 \<le> x" using Cons.prems(1) by simp
  have rest: "0 \<le> sum_list xs" using Cons.prems(1) by (intro sum_list_nonneg) simp
  have "acc + x < 2 ^ 63" using Cons.prems(3) rest by simp
  then have w: "wrap64 (acc + x) = acc + x" using x0 Cons.prems(2) by (simp add: wrap64_id)
  have IH: "map (\<lambda>c. c = 0) (cumsum (acc + x) xs)
         = (if acc + x = 0
            then replicate (length (takeWhile (\<lambda>d. d = 0) xs)) True
                 @ replicate (length xs - length (takeWhile (\<lambda>d. d = 0) xs)) False
            else replicate (length xs) False)"
    using Cons.prems x0 by (intro Cons.IH) (simp_all add: add.assoc)
  show ?case
  proof (cases "acc = 0 \<and> x = 0")
    case True
    then show ?thesis using IH w by simp
  next
    case False
    then have "acc + x \<noteq> 0" using x0 Cons.prems(2) by auto
    then show ?thesis using IH w False x0 Cons.prems(2)
      by (auto simp: replicate_append_same)
  qed
qed

lemma leading_zeros_mask_row:
  assumes "row \<noteq> []" "\<And>d. d \<in> set row \<Longrightarrow> 0 \<le> d" "sum_list row < 2 ^ 63"
  shows "map2 (\<lambda>m d. if m then p else d)
              ((map (\<lambda>c. c = 0) (cumsum 0 row))[length row - 1 := False]) row
         = replicate (min (length (takeWhile (\<lambda>d. d = 0) row)) (length row - 1)) p
           @ drop (min (length (takeWhile (\<lambda>d. d = 0) row)) (length row - 1)) row"
proof -
  let ?run = "length (takeWhile (\<lambda>d. d = 0) row)"
  let ?cut = "min ?run (length row - 1)"
  have run_le: "?run \<le> length row" by (rule length_takeWhile_le)
  have mask: "map (\<lambda>c. c = 0) (cumsum 0 row)
              = replicate ?run True @ replicate (length row - ?run) False"
    using cumsum_zero_mask [of row 0] assms(2) assms(3) by simp
  show ?thesis
  proof (rule nth_equalityI)
    show "length (map2 (\<lambda>m d. if m then p else d)
              ((map (\<lambda>c. c = 0) (cumsum 0 row))[length row - 1 := False]) row)
          = length (replicate ?cut p @ drop ?cut row)"
      using run_le by (simp add: cumsum_length)
  next
    fix i
    assume "i < length (map2 (\<lambda>m d. if m then p else d)
              ((map (\<lambda>c. c = 0) (cumsum 0 row))[length row - 1 := False]) row)"
    then have i: "i < length row" by (simp add: cumsum_length)
    have "((replicate ?run True @ replicate (length row - ?run) False)[length row - 1 := False]) ! i
          = (i < ?cut)"
      using i run_le by (auto simp: nth_list_update nth_append)
    then show "map2 (\<lambda>m d. if m then p else d)
              ((map (\<lambda>c. c = 0) (cumsum 0 row))[length row - 1 := False]) row ! i
          = (replicate ?cut p @ drop ?cut row) ! i"
      using i run_le unfolding mask by (auto simp: nth_append)
  qed
qed

lemma leading_zeros_row:
  assumes "row \<noteq> []" "\<And>d. d \<in> set row \<Longrightarrow> 0 \<le> d" "sum_list row < 2 ^ 63"
  shows "leading_zeros_to_padding_row row p
         = Inr (replicate (min (length (takeWhile (\<lambda>d. d = 0) row)) (length row - 1)) p
                @ drop (min (length (takeWhile (\<lambda>d. d = 0) row)) (length row - 1)) row)"
  using assms(1) leading_zeros_mask_row [OF assms]
  by (simp add: leading_zeros_to_padding_row_def Let_def)

text \<open>
  C6, as the code has it. The running sum \<open>cumsum\<close> is an int64 sum, so the mask is the
  leading run of zeros only where it does not wrap. For every digit matrix with at least
  one column, non-negative digits and row sums below \<open>2 ^ 63\<close>, each row has exactly its
  leading run of zeros replaced by the padding token, except that the last column is
  never replaced; a row of zeros becomes all padding except its final column, which
  stays \<open>0\<close>.
\<close>

theorem leading_zeros_to_padding_leading_run:
  assumes "\<forall>row \<in> set digits. row \<noteq> [] \<and> (\<forall>d \<in> set row. 0 \<le> d) \<and> sum_list row < 2 ^ 63"
  shows "leading_zeros_to_padding digits p
         = Inr (map (\<lambda>row. replicate (min (length (takeWhile (\<lambda>d. d = 0) row)) (length row - 1)) p
                          @ drop (min (length (takeWhile (\<lambda>d. d = 0) row)) (length row - 1)) row)
                    digits)
         \<and> leading_zeros_to_padding [replicate (Suc n) 0] p = Inr [replicate n p @ [0]]"
proof
  show "leading_zeros_to_padding digits p
         = Inr (map (\<lambda>row. replicate (min (length (takeWhile (\<lambda>d. d = 0) row)) (length row - 1)) p
                          @ drop (min (length (takeWhile (\<lambda>d. d = 0) row)) (length row - 1)) row)
                    digits)"
    unfolding leading_zeros_to_padding_def
  proof (rule traverse_Inr_map)
    fix row assume "row \<in> set digits"
    with assms have r: "row \<noteq> []" "\<And>d. d \<in> set row \<Longrightarrow> 0 \<le> d" "sum_list row < 2 ^ 63"
      by auto
    show "leading_zeros_to_padding_row row p
          = Inr (replicate (min (length (takeWhile (\<lambda>d. d = 0) row)) (length row - 1)) p
                 @ drop (min (length (takeWhile (\<lambda>d. d = 0) row)) (length row - 1)) row)"
      by (rule leading_zeros_row [OF r])
  qed
next
  let ?z = "replicate (Suc n) (0::int)"
  have tw: "takeWhile (\<lambda>d. d = 0) ?z = ?z" by (rule takeWhile_eq_all_conv [THEN iffD2]) simp
  have "leading_zeros_to_padding_row ?z p
        = Inr (replicate (min (length (takeWhile (\<lambda>d. d = 0) ?z)) (length ?z - 1)) p
           @ drop (min (length (takeWhile (\<lambda>d. d = 0) ?z)) (length ?z - 1)) ?z)"
    by (rule leading_zeros_row) (auto simp: sum_list_replicate)
  also have "\<dots> = Inr (replicate n p @ [0])"
    unfolding tw by (simp add: drop_replicate del: replicate_Suc, simp)
  finally show "leading_zeros_to_padding [?z] p = Inr [replicate n p @ [0]]"
    by (simp add: leading_zeros_to_padding_def del: replicate_Suc)
qed

theorem leading_zeros_to_padding_leading_run_witness:
  "leading_zeros_to_padding [[0, 0, 7, 0], [0, 0, 0, 0]] 12 = Inr [[12, 12, 7, 0], [12, 12, 12, 0]]"
proof -
  have "\<forall>row \<in> set [[0, 0, 7, 0], [0, 0, 0, 0 :: int]].
          row \<noteq> [] \<and> (\<forall>d \<in> set row. 0 \<le> d) \<and> sum_list row < 2 ^ 63"
    by simp
  from leading_zeros_to_padding_leading_run [OF this, of 12 0]
  show ?thesis by (simp add: numeral_eq_Suc)
qed

text \<open>
  The claim as stated fails where the running sum wraps: four digits \<open>2 ^ 62\<close> sum
  to \<open>2 ^ 64\<close>, which is \<open>0\<close> in int64, so the fourth column of the row below is
  replaced although it is not zero and the row has no leading zero at all.
\<close>

theorem leading_zeros_to_padding_counterexample:
  "takeWhile (\<lambda>d. d = 0)
     [4611686018427387904, 4611686018427387904, 4611686018427387904, 4611686018427387904, 7 :: int]
   = []
   \<and> leading_zeros_to_padding
       [[4611686018427387904, 4611686018427387904, 4611686018427387904, 4611686018427387904, 7]] 12
     = Inr [[4611686018427387904, 4611686018427387904, 4611686018427387904, 12, 7]]"
  by (simp add: leading_zeros_to_padding_def leading_zeros_to_padding_row_def wrap64_def)

section \<open>Theorems: batch generation\<close>

lemma traverse_Inr_set:
  "traverse f xs = Inr ys \<Longrightarrow> y \<in> set ys \<Longrightarrow> \<exists>x \<in> set xs. f x = Inr y"
  by (induction xs arbitrary: ys) (auto split: sum.splits)

lemma traverse_returns:
  "(\<And>x. x \<in> set xs \<Longrightarrow> \<exists>y. f x = Inr y) \<Longrightarrow> \<exists>ys. traverse f xs = Inr ys"
proof (induction xs)
  case Nil
  show ?case by simp
next
  case (Cons x xs)
  from Cons.prems [of x] obtain y where "f x = Inr y" by auto
  moreover from Cons.IH Cons.prems obtain ys where "traverse f xs = Inr ys" by auto
  ultimately show ?case by simp
qed

lemma make_digits_length: "length (make_digits_random_length bs b L rd rn) = bs"
  by (simp add: make_digits_random_length_def)

lemma make_digits_row_length:
  "row \<in> set (make_digits_random_length bs b L rd rn) \<Longrightarrow> length row = L"
  by (auto simp: make_digits_random_length_def)

lemma make_digits_range:
  assumes "\<forall>i j. 0 \<le> rd i j \<and> rd i j < b" "0 < b"
    and "row \<in> set (make_digits_random_length bs b L rd rn)" "d \<in> set row"
  shows "0 \<le> d \<and> d < b"
  using assms by (auto simp: make_digits_random_length_def)

lemma length_digits_to_numbers: "length (digits_to_numbers digits b) = length digits"
  by (simp add: digits_to_numbers_def)

lemma length_pow_arange: "length (pow_arange b L) = L"
  by (simp add: pow_arange_def)

text \<open>What \<open>numbers_to_digits\<close> returns when it returns: its shape and the range of its digits.\<close>

lemma numbers_to_digits_Inr:
  assumes "numbers_to_digits xs b L = Inr ds"
  shows "length ds = length xs"
    and "row \<in> set ds \<Longrightarrow> length row = L"
    and "row \<in> set ds \<Longrightarrow> d \<in> set row \<Longrightarrow> 0 < b \<Longrightarrow> 0 \<le> d \<and> d < b"
proof -
  from assms obtain qs where
    qs: "traverse (\<lambda>row. traverse (\<lambda>(x, w). floor_divide x w) (zip row (pow_arange b L)))
           (map (replicate L) xs) = Inr qs"
    and ds: "traverse (traverse (\<lambda>q. remainder q b)) qs = Inr ds"
    by (auto simp: numbers_to_digits_def Let_def split: sum.splits)
  show "length ds = length xs"
    using traverse_length [OF qs] traverse_length [OF ds] by simp
  have row_of: "\<exists>qrow. length qrow = L \<and> traverse (\<lambda>q. remainder q b) qrow = Inr row"
    if "row \<in> set ds" for row
  proof -
    from traverse_Inr_set [OF ds that] obtain qrow where
      q1: "qrow \<in> set qs" and q2: "traverse (\<lambda>q. remainder q b) qrow = Inr row" by auto
    from traverse_Inr_set [OF qs q1] obtain trow where
      t1: "trow \<in> set (map (replicate L) xs)"
      and t2: "traverse (\<lambda>(x, w). floor_divide x w) (zip trow (pow_arange b L)) = Inr qrow" by auto
    from t1 have "length trow = L" by auto
    with traverse_length [OF t2] have "length qrow = L" by (simp add: length_pow_arange)
    with q2 show ?thesis by auto
  qed
  show "length row = L" if "row \<in> set ds"
    using row_of [OF that] traverse_length by fastforce
  show "0 \<le> d \<and> d < b" if "row \<in> set ds" "d \<in> set row" "0 < b"
  proof -
    from row_of [OF that(1)] obtain qrow where "traverse (\<lambda>q. remainder q b) qrow = Inr row"
      by auto
    from traverse_Inr_set [OF this that(2)] obtain q where "remainder q b = Inr d" by auto
    then have "d = q mod b" by (auto simp: remainder_def split: if_splits)
    with that(3) show ?thesis by simp
  qed
qed

text \<open>\<open>numbers_to_digits\<close> returns when the base and all the weights are non-zero.\<close>

lemma numbers_to_digits_returns:
  assumes "b \<noteq> 0" "0 \<notin> set (pow_arange b L)"
  shows "\<exists>ds. numbers_to_digits xs b L = Inr ds"
proof -
  have "\<exists>qs. traverse (\<lambda>row. traverse (\<lambda>(x, w). floor_divide x w) (zip row (pow_arange b L)))
           (map (replicate L) xs) = Inr qs"
  proof (rule traverse_returns)
    fix row
    show "\<exists>y. traverse (\<lambda>(x, w). floor_divide x w) (zip row (pow_arange b L)) = Inr y"
    proof (rule traverse_returns)
      fix xw assume mem: "xw \<in> set (zip row (pow_arange b L))"
      obtain x w where xw: "xw = (x, w)" by (cases xw)
      from mem have "w \<in> set (pow_arange b L)" unfolding xw by (rule set_zip_rightD)
      with assms(2) have "w \<noteq> 0" by auto
      then show "\<exists>y. (case xw of (x, w) \<Rightarrow> floor_divide x w) = Inr y"
        by (simp add: xw floor_divide_def)
    qed
  qed
  then obtain qs where qs: "traverse (\<lambda>row. traverse (\<lambda>(x, w). floor_divide x w)
      (zip row (pow_arange b L))) (map (replicate L) xs) = Inr qs" ..
  have "\<exists>ds. traverse (traverse (\<lambda>q. remainder q b)) qs = Inr ds"
    using assms(1) by (intro traverse_returns) (simp add: remainder_def)
  with qs show ?thesis by (auto simp: numbers_to_digits_def Let_def)
qed

lemma leading_zeros_row_Inr:
  assumes "leading_zeros_to_padding_row row p = Inr row'"
  shows "row \<noteq> []" and "length row' = length row" and "set row' \<subseteq> insert p (set row)"
proof -
  show ne: "row \<noteq> []"
    using assms by (auto simp: leading_zeros_to_padding_row_def Let_def)
  then have eq: "row' = map2 (\<lambda>m d. if m then p else d)
                    ((map (\<lambda>c. c = 0) (cumsum 0 row))[length row - 1 := False]) row"
    using assms by (simp add: leading_zeros_to_padding_row_def Let_def)
  show "length row' = length row" by (simp add: eq cumsum_length)
  show "set row' \<subseteq> insert p (set row)"
    unfolding eq by (auto dest!: set_zip_rightD)
qed

lemma leading_zeros_returns:
  assumes "\<And>row. row \<in> set digits \<Longrightarrow> row \<noteq> []"
  shows "\<exists>out. leading_zeros_to_padding digits p = Inr out"
  unfolding leading_zeros_to_padding_def
  using assms by (intro traverse_returns) (simp add: leading_zeros_to_padding_row_def Let_def)

lemma leading_zeros_Inr:
  assumes "leading_zeros_to_padding digits p = Inr out"
  shows "length out = length digits"
    and "row' \<in> set out \<Longrightarrow>
         \<exists>row \<in> set digits. length row' = length row \<and> set row' \<subseteq> insert p (set row)"
proof -
  show "length out = length digits"
    using assms unfolding leading_zeros_to_padding_def by (rule traverse_length)
  show "\<exists>row \<in> set digits. length row' = length row \<and> set row' \<subseteq> insert p (set row)"
    if "row' \<in> set out"
  proof -
    from assms that obtain row where "row \<in> set digits"
      "leading_zeros_to_padding_row row p = Inr row'"
      unfolding leading_zeros_to_padding_def by (blast dest: traverse_Inr_set)
    then show ?thesis using leading_zeros_row_Inr(2,3) by blast
  qed
qed

lemma length_filter_count:
  "length (filter (\<lambda>v. v \<noteq> p) xs) + count_list xs p = length xs"
  by (induction xs) simp_all

lemma length_move_padding_row: "length (move_padding_row row p) = length row"
  by (simp add: move_padding_row_eq length_filter_count)

lemma full_Inr:
  assumes "full bs v = Inr t"
  shows "t = replicate bs [v]" and "- (2 ^ 63) \<le> v" and "v < 2 ^ 63"
  using assms by (auto simp: full_def split: if_splits)

text \<open>The steps of \<open>generate_batch\<close> when it returns.\<close>

lemma generate_batch_Inr:
  assumes "generate_batch self bs rnd = Inr res"
  obtains in0 in1 out in0' in1' out' where
    "generate_blocks self bs rnd = Inr (in0, in1, out)"
    "leading_zeros_to_padding out (padding_token self) = Inr out'"
    "leading_zeros_to_padding in0 (padding_token self) = Inr in0'"
    "leading_zeros_to_padding in1 (padding_token self) = Inr in1'"
    "res = move_padding_to_end
             (cat_blocks in0' (replicate bs [separator_token self]) in1'
                (replicate bs [end_token self]) out' (replicate bs [eos_token self]))
             (padding_token self)"
proof -
  from assms obtain in0 in1 out in0' in1' out' sp en eo where
    a: "generate_blocks self bs rnd = Inr (in0, in1, out)"
    "leading_zeros_to_padding out (padding_token self) = Inr out'"
    "leading_zeros_to_padding in0 (padding_token self) = Inr in0'"
    "leading_zeros_to_padding in1 (padding_token self) = Inr in1'"
    and f: "full bs (separator_token self) = Inr sp" "full bs (end_token self) = Inr en"
    "full bs (eos_token self) = Inr eo"
    and r: "res = move_padding_to_end (cat_blocks in0' sp in1' en out' eo) (padding_token self)"
    by (auto simp: generate_batch_def split: sum.splits prod.splits)
  from f have "sp = replicate bs [separator_token self]" "en = replicate bs [end_token self]"
    "eo = replicate bs [eos_token self]"
    by (simp_all add: full_Inr(1))
  with a r that show ?thesis by blast
qed

lemma generate_blocks_Inr:
  assumes "generate_blocks self bs rnd = Inr (in0, in1, out)"
  shows "in0 = make_digits_random_length bs (base self) (number_length self)
                 (digits0 rnd) (n_digits0 rnd)"
    and "in1 = make_digits_random_length bs (base self) (number_length self)
                 (digits1 rnd) (n_digits1 rnd)"
    and "numbers_to_digits
           (map2 (\<lambda>x y. wrap64 (x + y)) (digits_to_numbers in0 (base self))
                 (digits_to_numbers in1 (base self)))
           (base self) (number_length self + 1) = Inr out"
  using assms by (auto simp: generate_blocks_def Let_def split: sum.splits)

lemma cat_blocks_row:
  assumes "row \<in> set (cat_blocks in0 (replicate n1 [s]) in1 (replicate n2 [e]) out
                         (replicate n3 [z]))"
  obtains r0 r1 ro where "r0 \<in> set in0" "r1 \<in> set in1" "ro \<in> set out"
    "row = r0 @ [s] @ r1 @ [e] @ ro @ [z]"
proof -
  from assms obtain r0 sr r1 er ro zr where
    z: "(r0, sr, r1, er, ro, zr)
        \<in> set (zip in0 (zip (replicate n1 [s]) (zip in1 (zip (replicate n2 [e])
                 (zip out (replicate n3 [z]))))))"
    and row: "row = r0 @ sr @ r1 @ er @ ro @ zr"
    by (auto simp: cat_blocks_def)
  from z have m0: "r0 \<in> set in0" by (rule set_zip_leftD)
  from z have z1: "(sr, r1, er, ro, zr)
        \<in> set (zip (replicate n1 [s]) (zip in1 (zip (replicate n2 [e])
                 (zip out (replicate n3 [z])))))" by (rule set_zip_rightD)
  from z1 have "sr \<in> set (replicate n1 [s])" by (rule set_zip_leftD)
  then have sr: "sr = [s]" by simp
  from z1 have z2: "(r1, er, ro, zr)
        \<in> set (zip in1 (zip (replicate n2 [e]) (zip out (replicate n3 [z]))))"
    by (rule set_zip_rightD)
  from z2 have m1: "r1 \<in> set in1" by (rule set_zip_leftD)
  from z2 have z3: "(er, ro, zr) \<in> set (zip (replicate n2 [e]) (zip out (replicate n3 [z])))"
    by (rule set_zip_rightD)
  from z3 have "er \<in> set (replicate n2 [e])" by (rule set_zip_leftD)
  then have er: "er = [e]" by simp
  from z3 have z4: "(ro, zr) \<in> set (zip out (replicate n3 [z]))" by (rule set_zip_rightD)
  from z4 have m2: "ro \<in> set out" by (rule set_zip_leftD)
  from z4 have "zr \<in> set (replicate n3 [z])" by (rule set_zip_rightD)
  then have zr: "zr = [z]" by simp
  show ?thesis using that [OF m0 m1 m2] row sr er zr by simp
qed

lemma length_cat_blocks:
  "length (cat_blocks in0 sp in1 en out eo)
   = min (length in0) (min (length sp) (min (length in1) (min (length en)
       (min (length out) (length eo)))))"
  by (simp add: cat_blocks_def)

lemma int_to_digits_length:
  assumes "2 \<le> b" "0 < k" "b ^ (k - 1) \<le> n" "n < b ^ k"
  shows "\<exists>ds. int_to_digits n b = Some (Inr ds) \<and> length ds = k"
proof -
  have "0 < b ^ (k - 1)" using assms(1) by simp
  with assms(3) have n0: "0 \<le> n" by simp
  have "int_to_digits_loop [] n b = Some (Inr ([] @ map (\<lambda>i. (n div b ^ i) mod b) [0..<k]))"
    using assms(3) by (intro int_to_digits_loop_digits [OF assms(1) n0 assms(4)]) simp
  then show ?thesis using assms(2) by (simp add: int_to_digits_def)
qed

text \<open>
  The \<open>seq\<close> property in closed form: \<open>2 * base ^ number_length\<close> has
  \<open>number_length + 1\<close> digits in a base of at least 3, and \<open>number_length + 2\<close>
  digits in base 2.
\<close>

lemma seq_value:
  assumes "2 \<le> b"
  shows "seq (AdditionDataset_init n b L)
         = Some (Inr (if b = 2 then 3 * int L + 5 else 3 * int L + 4))"
proof (cases "b = 2")
  case True
  have "\<exists>ds. int_to_digits (2 * 2 ^ L) 2 = Some (Inr ds) \<and> length ds = L + 2"
    by (rule int_to_digits_length) simp_all
  then show ?thesis
    using True
    by (auto simp: seq_def max_output_length_def max_input_length_def AdditionDataset_init_def)
next
  case False
  with assms have b3: "3 \<le> b" by simp
  have "2 * b ^ L < b * b ^ L" using b3 by simp
  then have "\<exists>ds. int_to_digits (2 * b ^ L) b = Some (Inr ds) \<and> length ds = L + 1"
    using assms by (intro int_to_digits_length) simp_all
  then show ?thesis
    using False
    by (auto simp: seq_def max_output_length_def max_input_length_def AdditionDataset_init_def)
qed

lemma pow_arange_nonzero:
  assumes "1 \<le> b" "b ^ L < 2 ^ 63"
  shows "0 \<notin> set (pow_arange b (L + 1))"
proof -
  have "pow_arange b (L + 1) = map (\<lambda>k. b ^ k) (rev [0..<L + 1])"
    using assms by (intro pow_arange_exact) simp_all
  moreover have "b ^ k \<noteq> 0" for k using assms(1) by simp
  ultimately show ?thesis by auto
qed

text \<open>Where the token ids fit in int64 and no weight of the output block is zero,
  \<open>generate_batch\<close> returns \<open>bs\<close> rows of \<open>3 * number_length + 4\<close> tokens.\<close>

lemma generate_batch_returns:
  assumes "2 \<le> b" "1 \<le> L" and fit: "b + 3 < 2 ^ 63"
    and nz: "0 \<notin> set (pow_arange b (L + 1))"
  shows "\<exists>res. generate_batch (AdditionDataset_init n b L) bs rnd = Inr res
           \<and> length res = bs \<and> (\<forall>row \<in> set res. length row = 3 * L + 4)"
proof -
  let ?self = "AdditionDataset_init n b L"
  let ?p = "b + 2"
  have self: "base ?self = b" "number_length ?self = L" "padding_token ?self = ?p"
    "separator_token ?self = b + 1" "end_token ?self = b" "eos_token ?self = b + 3"
    by (simp_all add: AdditionDataset_init_def)
  have fulls: "full bs (b + 1) = Inr (replicate bs [b + 1])" "full bs b = Inr (replicate bs [b])"
    "full bs (b + 3) = Inr (replicate bs [b + 3])"
    using assms(1) fit by (simp_all add: full_def)
  define in0 where "in0 = make_digits_random_length bs b L (digits0 rnd) (n_digits0 rnd)"
  define in1 where "in1 = make_digits_random_length bs b L (digits1 rnd) (n_digits1 rnd)"
  define total where "total = map2 (\<lambda>x y. wrap64 (x + y))
                        (digits_to_numbers in0 b) (digits_to_numbers in1 b)"
  have len_total: "length total = bs"
    by (simp add: total_def length_digits_to_numbers in0_def in1_def make_digits_length)
  have "b \<noteq> 0" using assms(1) by simp
  from numbers_to_digits_returns [OF this nz]
  obtain out where out: "numbers_to_digits total b (L + 1) = Inr out" by blast
  have blocks: "generate_blocks ?self bs rnd = Inr (in0, in1, out)"
    using out
    by (simp add: generate_blocks_def Let_def self in0_def [symmetric] in1_def [symmetric]
        total_def [symmetric])
  have len_out: "length out = bs" using numbers_to_digits_Inr(1) [OF out] len_total by simp
  have row_out: "length r = L + 1" if "r \<in> set out" for r
    using numbers_to_digits_Inr(2) [OF out that] .
  have row_in0: "length r = L" if "r \<in> set in0" for r
    using that unfolding in0_def by (rule make_digits_row_length)
  have row_in1: "length r = L" if "r \<in> set in1" for r
    using that unfolding in1_def by (rule make_digits_row_length)
  have ne_out: "r \<noteq> []" if "r \<in> set out" for r using row_out [OF that] by auto
  have ne_in0: "r \<noteq> []" if "r \<in> set in0" for r using row_in0 [OF that] assms(2) by auto
  have ne_in1: "r \<noteq> []" if "r \<in> set in1" for r using row_in1 [OF that] assms(2) by auto
  have "\<exists>out'. leading_zeros_to_padding out ?p = Inr out'"
    by (rule leading_zeros_returns) (rule ne_out)
  then obtain out' where out': "leading_zeros_to_padding out ?p = Inr out'" ..
  have "\<exists>in0'. leading_zeros_to_padding in0 ?p = Inr in0'"
    by (rule leading_zeros_returns) (rule ne_in0)
  then obtain in0' where in0': "leading_zeros_to_padding in0 ?p = Inr in0'" ..
  have "\<exists>in1'. leading_zeros_to_padding in1 ?p = Inr in1'"
    by (rule leading_zeros_returns) (rule ne_in1)
  then obtain in1' where in1': "leading_zeros_to_padding in1 ?p = Inr in1'" ..
  define res where "res = move_padding_to_end
      (cat_blocks in0' (replicate bs [b + 1]) in1' (replicate bs [b]) out'
         (replicate bs [b + 3])) ?p"
  have run: "generate_batch ?self bs rnd = Inr res"
    by (simp add: generate_batch_def blocks self out' in0' in1' fulls res_def)
  have "length in0' = bs" "length in1' = bs" "length out' = bs"
    using leading_zeros_Inr(1) [OF in0'] leading_zeros_Inr(1) [OF in1']
      leading_zeros_Inr(1) [OF out'] len_out
    by (simp_all add: in0_def in1_def make_digits_length)
  then have len_res: "length res = bs"
    by (simp add: res_def move_padding_to_end_def length_cat_blocks)
  have "length row = 3 * L + 4" if "row \<in> set res" for row
  proof -
    from that obtain c where c: "c \<in> set (cat_blocks in0' (replicate bs [b + 1]) in1'
          (replicate bs [b]) out' (replicate bs [b + 3]))"
      and row: "row = move_padding_row c ?p"
      by (auto simp: res_def move_padding_to_end_def)
    from c obtain r0 r1 ro where r: "r0 \<in> set in0'" "r1 \<in> set in1'" "ro \<in> set out'"
      "c = r0 @ [b + 1] @ r1 @ [b] @ ro @ [b + 3]"
      by (rule cat_blocks_row)
    from leading_zeros_Inr(2) [OF in0' r(1)] row_in0 have "length r0 = L" by auto
    moreover from leading_zeros_Inr(2) [OF in1' r(2)] row_in1 have "length r1 = L" by auto
    moreover from leading_zeros_Inr(2) [OF out' r(3)] row_out have "length ro = L + 1" by auto
    ultimately show ?thesis by (simp add: row length_move_padding_row r(4))
  qed
  with run len_res show ?thesis by blast
qed

text \<open>
  C2, as the code has it. \<open>seq\<close> is an upper bound on the row length, as its comment
  says, and the bound is the row length only for a base of at least 3. For every base
  \<open>b \<ge> 2\<close> whose token ids fit in int64 (\<open>b + 3 < 2 ^ 63\<close>, so that
  \<open>torch.full\<close> raises nothing) and every \<open>number_length \<ge> 1\<close> for which no weight
  \<open>b ^ k\<close>, \<open>k \<le> number_length\<close>, is zero in int64 (so that the division of the
  output block raises nothing; by \<open>pow_arange_nonzero\<close> this holds whenever
  \<open>b ^ number_length < 2 ^ 63\<close>), \<open>generate_batch(bs)\<close> returns \<open>bs\<close> rows of
  \<open>3 * number_length + 4\<close> tokens; \<open>seq\<close> is that number for \<open>b \<ge> 3\<close> and one
  more for \<open>b = 2\<close>.
\<close>

theorem generate_batch_shape:
  assumes "2 \<le> b" "1 \<le> L" "b + 3 < 2 ^ 63" "0 \<notin> set (pow_arange b (L + 1))"
  shows "\<exists>res. generate_batch (AdditionDataset_init n b L) bs rnd = Inr res
           \<and> length res = bs
           \<and> list_all (\<lambda>row. int (length row) = 3 * int L + 4) res
           \<and> seq (AdditionDataset_init n b L)
             = Some (Inr (if b = 2 then 3 * int L + 5 else 3 * int L + 4))"
proof -
  from generate_batch_returns [OF assms] obtain res where
    "generate_batch (AdditionDataset_init n b L) bs rnd = Inr res" "length res = bs"
    "\<forall>row \<in> set res. length row = 3 * L + 4" by blast
  moreover from this(3) have "list_all (\<lambda>row. int (length row) = 3 * int L + 4) res"
    by (simp add: list_all_iff)
  ultimately show ?thesis using seq_value [OF assms(1)] by blast
qed

text \<open>
  A run of the source's own example: base 10, \<open>number_length = 2\<close>, one row, the
  operands \<open>[0, 7]\<close> and \<open>[0, 3]\<close>.
\<close>

lemma example_blocks:
  "generate_blocks (AdditionDataset_init 1000000 10 2) 1
     \<lparr>digits0 = \<lambda>i j. 7, n_digits0 = \<lambda>i. 1, digits1 = \<lambda>i j. 3, n_digits1 = \<lambda>i. 1\<rparr>
   = Inr ([[0, 7]], [[0, 3]], [[0, 1, 0]])"
  by (simp add: generate_blocks_def AdditionDataset_init_def make_digits_random_length_def
      digits_to_numbers_def numbers_to_digits_def pow_arange_def floor_divide_def
      remainder_def wrap64_def upt_conv_Cons eval_nat_numeral)

lemma example_batch:
  "generate_batch (AdditionDataset_init 1000000 10 2) 1
     \<lparr>digits0 = \<lambda>i j. 7, n_digits0 = \<lambda>i. 1, digits1 = \<lambda>i j. 3, n_digits1 = \<lambda>i. 1\<rparr>
   = Inr [[7, 11, 3, 10, 1, 0, 13, 12, 12, 12]]"
  by (simp only: generate_batch_def example_blocks sum.case prod.case)
     (simp add: AdditionDataset_init_def leading_zeros_to_padding_def
      leading_zeros_to_padding_row_def wrap64_def full_def cat_blocks_def
      move_padding_to_end_rows)

theorem generate_batch_shape_witness:
  "generate_batch (AdditionDataset_init 1000000 10 2) 1
     \<lparr>digits0 = \<lambda>i j. 7, n_digits0 = \<lambda>i. 1, digits1 = \<lambda>i j. 3, n_digits1 = \<lambda>i. 1\<rparr>
   = Inr [[7, 11, 3, 10, 1, 0, 13, 12, 12, 12]]
   \<and> seq (AdditionDataset_init 1000000 10 2) = Some (Inr 10)"
proof -
  have "pow_arange 10 (2 + 1) = [100, 10, 1]"
    by (simp add: pow_arange_def wrap64_def upt_conv_Cons eval_nat_numeral)
  then have h: "(2::int) \<le> 10" "(1::nat) \<le> 2" "(10::int) + 3 < 2 ^ 63"
    "0 \<notin> set (pow_arange 10 (2 + 1))"
    by simp_all
  from generate_batch_shape [OF h, of 1000000 1
      "\<lparr>digits0 = \<lambda>i j. 7, n_digits0 = \<lambda>i. 1, digits1 = \<lambda>i j. 3, n_digits1 = \<lambda>i. 1\<rparr>"]
  have "seq (AdditionDataset_init 1000000 10 2) = Some (Inr 10)" by auto
  then show ?thesis by (rule conjI [OF example_batch])
qed

text \<open>
  The claim as stated fails in base 2: with \<open>number_length = 1\<close> a row has 7 tokens
  and \<open>seq\<close> is 8.
\<close>

theorem generate_batch_shape_counterexample:
  "generate_batch (AdditionDataset_init 1000000 2 1) 1
     \<lparr>digits0 = \<lambda>i j. 1, n_digits0 = \<lambda>i. 0, digits1 = \<lambda>i j. 1, n_digits1 = \<lambda>i. 0\<rparr>
   = Inr [[1, 3, 1, 2, 1, 0, 5]]
   \<and> length [1, 3, 1, 2, 1, 0, 5 :: int] = 7
   \<and> seq (AdditionDataset_init 1000000 2 1) = Some (Inr 8)"
proof -
  have "generate_blocks (AdditionDataset_init 1000000 2 1) 1
     \<lparr>digits0 = \<lambda>i j. 1, n_digits0 = \<lambda>i. 0, digits1 = \<lambda>i j. 1, n_digits1 = \<lambda>i. 0\<rparr>
     = Inr ([[1]], [[1]], [[1, 0]])"
    by (simp add: generate_blocks_def AdditionDataset_init_def make_digits_random_length_def
      digits_to_numbers_def numbers_to_digits_def pow_arange_def floor_divide_def
      remainder_def wrap64_def upt_conv_Cons eval_nat_numeral Let_def)
  then have "generate_batch (AdditionDataset_init 1000000 2 1) 1
     \<lparr>digits0 = \<lambda>i j. 1, n_digits0 = \<lambda>i. 0, digits1 = \<lambda>i j. 1, n_digits1 = \<lambda>i. 0\<rparr>
     = Inr [[1, 3, 1, 2, 1, 0, 5]]"
    by (simp only: generate_batch_def sum.case prod.case)
       (simp add: AdditionDataset_init_def leading_zeros_to_padding_def
        leading_zeros_to_padding_row_def wrap64_def full_def cat_blocks_def
        move_padding_to_end_rows)
  moreover have "seq (AdditionDataset_init 1000000 2 1) = Some (Inr 8)"
    by (simp add: seq_def max_output_length_def max_input_length_def AdditionDataset_init_def
        int_to_digits_def int_to_digits_loop.simps)
  ultimately show ?thesis by simp
qed


text \<open>
  With base \<open>2 ^ 63 - 3\<close> the eos token is \<open>2 ^ 63\<close>, no int64 value:
  \<open>torch.full\<close> raises and \<open>generate_batch\<close> returns nothing.
\<close>

lemma generate_batch_token_overflow:
  "generate_batch (AdditionDataset_init 1000000 9223372036854775805 1) 1
     \<lparr>digits0 = \<lambda>i j. 1, n_digits0 = \<lambda>i. 0, digits1 = \<lambda>i j. 1, n_digits1 = \<lambda>i. 0\<rparr>
   = Inl RuntimeError"
proof -
  have "generate_blocks (AdditionDataset_init 1000000 9223372036854775805 1) 1
     \<lparr>digits0 = \<lambda>i j. 1, n_digits0 = \<lambda>i. 0, digits1 = \<lambda>i j. 1, n_digits1 = \<lambda>i. 0\<rparr>
     = Inr ([[1]], [[1]], [[0, 2]])"
    by (simp add: generate_blocks_def AdditionDataset_init_def make_digits_random_length_def
      digits_to_numbers_def numbers_to_digits_def pow_arange_def floor_divide_def
      remainder_def wrap64_def upt_conv_Cons eval_nat_numeral Let_def)
  then show ?thesis
    by (simp only: generate_batch_def sum.case prod.case)
       (simp add: AdditionDataset_init_def leading_zeros_to_padding_def
        leading_zeros_to_padding_row_def wrap64_def full_def)
qed

text \<open>The value of a row of digits: below \<open>b ^ length row\<close>.\<close>

lemma row_value_bounds:
  assumes "1 \<le> (b::int)" "\<And>d. d \<in> set row \<Longrightarrow> 0 \<le> d \<and> d < b"
  shows "0 \<le> sum_list (map2 (\<lambda>d w. d * w) row (map (\<lambda>k. b ^ k) (rev [0..<length row])))
         \<and> sum_list (map2 (\<lambda>d w. d * w) row (map (\<lambda>k. b ^ k) (rev [0..<length row])))
             < b ^ length row"
  using assms(2)
proof (induction row)
  case Nil
  show ?case by simp
next
  case (Cons d row)
  let ?v = "sum_list (map2 (\<lambda>d w. d * w) row (map (\<lambda>k. b ^ k) (rev [0..<length row])))"
  have IH: "0 \<le> ?v \<and> ?v < b ^ length row" using Cons.prems by (intro Cons.IH) simp
  have d: "0 \<le> d" "d \<le> b - 1" using Cons.prems [of d] by simp_all
  have p: "0 \<le> b ^ length row" using assms(1) by simp
  have unfold: "sum_list (map2 (\<lambda>d w. d * w) (d # row)
                  (map (\<lambda>k. b ^ k) (rev [0..<length (d # row)])))
                = d * b ^ length row + ?v"
    by simp
  have "d * b ^ length row \<le> (b - 1) * b ^ length row"
    using d(2) p by (rule mult_right_mono)
  then have "d * b ^ length row + ?v < b * b ^ length row"
    using IH by (simp add: algebra_simps)
  moreover have "0 \<le> d * b ^ length row" using d(1) p by simp
  ultimately show ?case unfolding unfold using IH by simp
qed

text \<open>
  The blocks of \<open>generate_batch\<close> where no int64 value wraps: the output block is the
  digit grid of the true sums of the operands.
\<close>

lemma generate_blocks_exact:
  assumes "2 \<le> b" "1 \<le> L" "2 * b ^ L \<le> 2 ^ 63"
    and v0: "\<forall>i j. 0 \<le> digits0 rnd i j \<and> digits0 rnd i j < b"
    and v1: "\<forall>i j. 0 \<le> digits1 rnd i j \<and> digits1 rnd i j < b"
  shows "\<exists>in0 in1 out.
           generate_blocks (AdditionDataset_init n b L) bs rnd = Inr (in0, in1, out)
           \<and> length out = bs
           \<and> digits_to_numbers out b
             = map2 (\<lambda>x y. x + y) (digits_to_numbers in0 b) (digits_to_numbers in1 b)"
proof -
  let ?self = "AdditionDataset_init n b L"
  let ?S = "\<lambda>row. sum_list (map2 (\<lambda>d w. d * w) row (map (\<lambda>k. b ^ k) (rev [0..<length row])))"
  have self: "base ?self = b" "number_length ?self = L"
    by (simp_all add: AdditionDataset_init_def)
  have b1: "1 \<le> b" and bpos: "0 < b" using assms(1) by simp_all
  have "1 \<le> b ^ L" using b1 by (rule one_le_power)
  with assms(3) have bL: "b ^ L < 2 ^ 63" by simp
  have bL1: "b ^ (L - 1) < 2 ^ 63"
  proof -
    have "b ^ (L - 1) \<le> b ^ L" using b1 by (intro power_increasing) simp_all
    with bL show ?thesis by simp
  qed
  have b63: "b < 2 ^ 63"
  proof -
    have "b ^ 1 \<le> b ^ L" using b1 assms(2) by (intro power_increasing) simp_all
    with bL show ?thesis by simp
  qed
  define in0 where "in0 = make_digits_random_length bs b L (digits0 rnd) (n_digits0 rnd)"
  define in1 where "in1 = make_digits_random_length bs b L (digits1 rnd) (n_digits1 rnd)"
  have rows0: "length row = L \<and> (\<forall>d \<in> set row. 0 \<le> d \<and> d < b)" if "row \<in> set in0" for row
    using that make_digits_row_length make_digits_range [OF v0 bpos] unfolding in0_def by blast
  have rows1: "length row = L \<and> (\<forall>d \<in> set row. 0 \<le> d \<and> d < b)" if "row \<in> set in1" for row
    using that make_digits_row_length make_digits_range [OF v1 bpos] unfolding in1_def by blast
  have val_bound: "0 \<le> ?S row \<and> ?S row < b ^ L"
    if "length row = L \<and> (\<forall>d \<in> set row. 0 \<le> d \<and> d < b)" for row
    using row_value_bounds [OF b1, of row] that by auto
  have exact: "digits_to_numbers digits b = map ?S digits"
    if "\<And>row. row \<in> set digits \<Longrightarrow> length row = L \<and> (\<forall>d \<in> set row. 0 \<le> d \<and> d < b)"
    for digits
  proof (rule digits_to_numbers_exact [OF b1])
    fix row assume "row \<in> set digits"
    from that [OF this] val_bound [OF that [OF this]] bL bL1
    show "b ^ (length row - 1) < 2 ^ 63 \<and> (\<forall>d \<in> set row. 0 \<le> d) \<and> ?S row < 2 ^ 63"
      by auto
  qed
  have n0: "digits_to_numbers in0 b = map ?S in0" using rows0 by (rule exact)
  have n1: "digits_to_numbers in1 b = map ?S in1" using rows1 by (rule exact)
  define total where "total = map2 (\<lambda>x y. x + y) (map ?S in0) (map ?S in1)"
  have pair: "0 \<le> x \<and> x < b ^ L \<and> 0 \<le> y \<and> y < b ^ L"
    if "(x, y) \<in> set (zip (map ?S in0) (map ?S in1))" for x y
  proof -
    from that have "x \<in> set (map ?S in0)" "y \<in> set (map ?S in1)"
      by (auto dest: set_zip_leftD set_zip_rightD)
    then obtain r0 r1 where "r0 \<in> set in0" "x = ?S r0" "r1 \<in> set in1" "y = ?S r1" by auto
    then show ?thesis using val_bound [OF rows0] val_bound [OF rows1] by auto
  qed
  have wrapped: "map2 (\<lambda>x y. wrap64 (x + y)) (map ?S in0) (map ?S in1) = total"
    unfolding total_def
  proof (rule map_cong [OF refl])
    fix xy assume mem: "xy \<in> set (zip (map ?S in0) (map ?S in1))"
    obtain x y where xy: "xy = (x, y)" by (cases xy)
    from mem have "(x, y) \<in> set (zip (map ?S in0) (map ?S in1))" unfolding xy .
    from pair [OF this] assms(3) have "0 \<le> x + y" "x + y < 2 ^ 63" by auto
    then show "(case xy of (x, y) \<Rightarrow> wrap64 (x + y)) = (case xy of (x, y) \<Rightarrow> x + y)"
      by (simp add: xy wrap64_id)
  qed
  have range: "\<forall>x \<in> set total. 0 \<le> x \<and> x < b ^ (L + 1) \<and> x < 2 ^ 63"
  proof
    fix t assume "t \<in> set total"
    then obtain x y where "(x, y) \<in> set (zip (map ?S in0) (map ?S in1))" "t = x + y"
      by (auto simp: total_def)
    with pair have t: "0 \<le> t" "t < 2 * b ^ L" by fastforce+
    have "2 * b ^ L \<le> b * b ^ L" using assms(1) by (intro mult_right_mono) simp_all
    with t(2) have "t < b * b ^ L" by (rule less_le_trans)
    then have "t < b ^ (L + 1)" by simp
    moreover from t(2) assms(3) have "t < 2 ^ 63" by (rule less_le_trans)
    ultimately show "0 \<le> t \<and> t < b ^ (L + 1) \<and> t < 2 ^ 63" using t(1) by blast
  qed
  let ?out = "map (\<lambda>x. map (\<lambda>k. (x div b ^ k) mod b) (rev [0..<L + 1])) total"
  have bL': "b ^ (L + 1 - 1) < 2 ^ 63" using bL by simp
  have enc: "numbers_to_digits total b (L + 1) = Inr ?out"
    by (rule batched_roundtrip_rows(1) [OF assms(1) b63 bL' range])
  have dec: "digits_to_numbers ?out b = total"
    by (rule batched_roundtrip_rows(2) [OF assms(1) b63 bL' range])
  have blocks: "generate_blocks ?self bs rnd = Inr (in0, in1, ?out)"
    using enc
    by (simp add: generate_blocks_def Let_def self in0_def [symmetric] in1_def [symmetric]
        n0 n1 wrapped)
  have "length ?out = bs"
    by (simp add: total_def in0_def in1_def make_digits_length)
  moreover have "digits_to_numbers ?out b
      = map2 (\<lambda>x y. x + y) (digits_to_numbers in0 b) (digits_to_numbers in1 b)"
    using dec by (simp add: n0 n1 total_def)
  ultimately show ?thesis using blocks by blast
qed

text \<open>
  C1, as the code has it. The operands, their sum and the weights are int64 values. For
  every base \<open>b \<ge> 2\<close> and \<open>number_length \<ge> 1\<close> with
  \<open>2 * b ^ number_length \<le> 2 ^ 63\<close> (the sum of two operands fits in int64), every
  batch size and all random draws, the output block \<open>out_digits\<close> of \<open>generate_batch\<close>
  (before the leading zeros are replaced) decodes to the sum of the decoded operand
  blocks. For base 10 the operands \<open>[0, 7]\<close> and \<open>[0, 3]\<close> give output digits
  \<open>[0, 1, 0]\<close>, which decode to 10.
\<close>

theorem generate_batch_output_is_sum:
  assumes "2 \<le> b" "1 \<le> L" "2 * b ^ L \<le> 2 ^ 63"
    and "\<forall>i j. 0 \<le> digits0 rnd i j \<and> digits0 rnd i j < b"
    and "\<forall>i j. 0 \<le> digits1 rnd i j \<and> digits1 rnd i j < b"
  shows "(\<exists>in0 in1 out.
           generate_blocks (AdditionDataset_init n b L) bs rnd = Inr (in0, in1, out)
           \<and> length out = bs
           \<and> digits_to_numbers out b
             = map2 (\<lambda>x y. x + y) (digits_to_numbers in0 b) (digits_to_numbers in1 b))
         \<and> generate_blocks (AdditionDataset_init 1000000 10 2) 1
             \<lparr>digits0 = \<lambda>i j. 7, n_digits0 = \<lambda>i. 1, digits1 = \<lambda>i j. 3, n_digits1 = \<lambda>i. 1\<rparr>
           = Inr ([[0, 7]], [[0, 3]], [[0, 1, 0]])
         \<and> digits_to_numbers [[0, 7]] 10 = [7] \<and> digits_to_numbers [[0, 3]] 10 = [3]
         \<and> digits_to_numbers [[0, 1, 0]] 10 = [10]"
proof -
  have "digits_to_numbers [[0, 7]] 10 = [7]" "digits_to_numbers [[0, 3]] 10 = [3]"
    "digits_to_numbers [[0, 1, 0]] 10 = [10]"
    by (simp_all add: digits_to_numbers_def pow_arange_def wrap64_def upt_conv_Cons
        eval_nat_numeral)
  with generate_blocks_exact [OF assms] example_blocks show ?thesis by blast
qed

theorem generate_batch_output_is_sum_witness:
  "\<exists>in0 in1 out.
     generate_blocks (AdditionDataset_init 1000000 10 18) 3
       \<lparr>digits0 = \<lambda>i j. 9, n_digits0 = \<lambda>i. 0, digits1 = \<lambda>i j. int j mod 10, n_digits1 = \<lambda>i. int i\<rparr>
     = Inr (in0, in1, out)
     \<and> length out = 3
     \<and> digits_to_numbers out 10
       = map2 (\<lambda>x y. x + y) (digits_to_numbers in0 10) (digits_to_numbers in1 10)"
proof -
  have h: "(2::int) \<le> 10" "(1::nat) \<le> 18" "2 * (10::int) ^ 18 \<le> 2 ^ 63"
    "\<forall>i j. 0 \<le> digits0 \<lparr>digits0 = \<lambda>i j. 9, n_digits0 = \<lambda>i. 0,
        digits1 = \<lambda>i j. int j mod 10, n_digits1 = \<lambda>i. int i\<rparr> i j
      \<and> digits0 \<lparr>digits0 = \<lambda>i j. 9, n_digits0 = \<lambda>i. 0,
        digits1 = \<lambda>i j. int j mod 10, n_digits1 = \<lambda>i. int i\<rparr> i j < (10::int)"
    "\<forall>i j. 0 \<le> digits1 \<lparr>digits0 = \<lambda>i j. 9, n_digits0 = \<lambda>i. 0,
        digits1 = \<lambda>i j. int j mod 10, n_digits1 = \<lambda>i. int i\<rparr> i j
      \<and> digits1 \<lparr>digits0 = \<lambda>i j. 9, n_digits0 = \<lambda>i. 0,
        digits1 = \<lambda>i j. int j mod 10, n_digits1 = \<lambda>i. int i\<rparr> i j < (10::int)"
    by simp_all
  from generate_batch_output_is_sum [OF h, of 1000000 3] show ?thesis by blast
qed

text \<open>
  The claim as stated fails once a weight wraps: base \<open>2 ^ 32 + 1\<close>,
  \<open>number_length = 2\<close>, both operands \<open>[1, 1]\<close>. The operands decode to
  \<open>2 ^ 32 + 2\<close> each, the output block is \<open>[1, 2, 2]\<close>, and it decodes to
  17179869189, not to the sum 8589934596.
\<close>

theorem generate_batch_output_is_sum_counterexample:
  "generate_blocks (AdditionDataset_init 1000000 4294967297 2) 1
     \<lparr>digits0 = \<lambda>i j. 1, n_digits0 = \<lambda>i. 0, digits1 = \<lambda>i j. 1, n_digits1 = \<lambda>i. 0\<rparr>
   = Inr ([[1, 1]], [[1, 1]], [[1, 2, 2]])
   \<and> digits_to_numbers [[1, 1]] 4294967297 = [4294967298]
   \<and> digits_to_numbers [[1, 2, 2]] 4294967297 = [17179869189]
   \<and> (17179869189 :: int) \<noteq> 4294967298 + 4294967298"
proof -
  have ops: "make_digits_random_length (Suc 0) 4294967297 2 (\<lambda>i j. 1) (\<lambda>i. 0) = [[1, 1]]"
    by (simp add: make_digits_random_length_def upt_conv_Cons numeral_2_eq_2)
  have dec: "digits_to_numbers [[1, 1]] 4294967297 = [4294967298]"
    by (simp add: digits_to_numbers_def pow_arange_def wrap64_def upt_conv_Cons numeral_2_eq_2)
  have enc: "numbers_to_digits [8589934596] 4294967297 3 = Inr [[1, 2, 2]]"
    by (simp add: numbers_to_digits_def pow_arange_def floor_divide_def remainder_def
        wrap64_def upt_conv_Cons numeral_3_eq_3)
  have out: "digits_to_numbers [[1, 2, 2]] 4294967297 = [17179869189]"
    by (simp add: digits_to_numbers_def pow_arange_def wrap64_def upt_conv_Cons numeral_3_eq_3)
  have "generate_blocks (AdditionDataset_init 1000000 4294967297 2) 1
     \<lparr>digits0 = \<lambda>i j. 1, n_digits0 = \<lambda>i. 0, digits1 = \<lambda>i j. 1, n_digits1 = \<lambda>i. 0\<rparr>
   = Inr ([[1, 1]], [[1, 1]], [[1, 2, 2]])"
    by (simp add: generate_blocks_def AdditionDataset_init_def Let_def ops dec wrap64_def enc)
  with dec out show ?thesis by simp
qed

lemma count_list_replicate_other: "x \<noteq> p \<Longrightarrow> count_list (replicate k p) x = 0"
  by (induction k) simp_all

lemma filter_digits_subset:
  assumes "set r' \<subseteq> insert p (set r)" "\<And>d. d \<in> set r \<Longrightarrow> 0 \<le> d \<and> d < b"
  shows "\<forall>v \<in> set (filter (\<lambda>v. v \<noteq> p) r'). 0 \<le> v \<and> v < (b::int)"
  using assms by auto

text \<open>
  A row of digits and markers: each marker, not being a digit nor the padding token,
  occurs once.
\<close>

lemma marker_counts:
  fixes b :: int
  assumes "\<forall>v \<in> set a. 0 \<le> v \<and> v < b" "\<forall>v \<in> set c. 0 \<le> v \<and> v < b"
    "\<forall>v \<in> set d. 0 \<le> v \<and> v < b"
  shows "count_list (a @ [b + 1] @ c @ [b] @ d @ [b + 3] @ replicate k (b + 2)) (b + 1) = 1"
    and "count_list (a @ [b + 1] @ c @ [b] @ d @ [b + 3] @ replicate k (b + 2)) b = 1"
    and "count_list (a @ [b + 1] @ c @ [b] @ d @ [b + 3] @ replicate k (b + 2)) (b + 3) = 1"
proof -
  have "x \<notin> set a \<and> x \<notin> set c \<and> x \<notin> set d" if "b \<le> x" for x
    using assms that by auto
  then have "count_list a x = 0 \<and> count_list c x = 0 \<and> count_list d x = 0" if "b \<le> x" for x
    using that by simp
  from this [of "b + 1"] this [of b] this [of "b + 3"]
  show "count_list (a @ [b + 1] @ c @ [b] @ d @ [b + 3] @ replicate k (b + 2)) (b + 1) = 1"
    and "count_list (a @ [b + 1] @ c @ [b] @ d @ [b + 3] @ replicate k (b + 2)) b = 1"
    and "count_list (a @ [b + 1] @ c @ [b] @ d @ [b + 3] @ replicate k (b + 2)) (b + 3) = 1"
    by (simp_all add: count_list_replicate_other)
qed

text \<open>The form of a row that \<open>generate_batch\<close> returns.\<close>

lemma generate_batch_row_form:
  assumes "1 \<le> b"
    and v0: "\<forall>i j. 0 \<le> digits0 rnd i j \<and> digits0 rnd i j < b"
    and v1: "\<forall>i j. 0 \<le> digits1 rnd i j \<and> digits1 rnd i j < b"
    and run: "generate_batch (AdditionDataset_init n b L) bs rnd = Inr res"
    and row: "row \<in> set res"
  shows "\<exists>a c d k. row = a @ [b + 1] @ c @ [b] @ d @ [b + 3] @ replicate k (b + 2)
           \<and> (\<forall>v \<in> set a. 0 \<le> v \<and> v < b) \<and> (\<forall>v \<in> set c. 0 \<le> v \<and> v < b)
           \<and> (\<forall>v \<in> set d. 0 \<le> v \<and> v < b)"
proof -
  let ?self = "AdditionDataset_init n b L"
  let ?p = "b + 2"
  have self: "base ?self = b" "number_length ?self = L" "padding_token ?self = ?p"
    "separator_token ?self = b + 1" "end_token ?self = b" "eos_token ?self = b + 3"
    by (simp_all add: AdditionDataset_init_def)
  have bpos: "0 < b" using assms(1) by simp
  from run obtain in0 in1 out in0' in1' out' where
    blocks: "generate_blocks ?self bs rnd = Inr (in0, in1, out)"
    and out': "leading_zeros_to_padding out ?p = Inr out'"
    and in0': "leading_zeros_to_padding in0 ?p = Inr in0'"
    and in1': "leading_zeros_to_padding in1 ?p = Inr in1'"
    and res: "res = move_padding_to_end
        (cat_blocks in0' (replicate bs [b + 1]) in1' (replicate bs [b]) out'
           (replicate bs [b + 3])) ?p"
    by (rule generate_batch_Inr) (simp add: self)
  note g = generate_blocks_Inr [OF blocks, unfolded self]
  have d0: "0 \<le> v \<and> v < b" if "r \<in> set in0" "v \<in> set r" for r v
    using make_digits_range [OF v0 bpos] that unfolding g(1) by blast
  have d1: "0 \<le> v \<and> v < b" if "r \<in> set in1" "v \<in> set r" for r v
    using make_digits_range [OF v1 bpos] that unfolding g(2) by blast
  have d2: "0 \<le> v \<and> v < b" if "r \<in> set out" "v \<in> set r" for r v
    using numbers_to_digits_Inr(3) [OF g(3) that bpos] .
  from row obtain cr where cr: "cr \<in> set (cat_blocks in0' (replicate bs [b + 1]) in1'
      (replicate bs [b]) out' (replicate bs [b + 3]))"
    and row_eq: "row = move_padding_row cr ?p"
    by (auto simp: res move_padding_to_end_def)
  from cr obtain r0 r1 ro where r: "r0 \<in> set in0'" "r1 \<in> set in1'" "ro \<in> set out'"
    and cr_eq: "cr = r0 @ [b + 1] @ r1 @ [b] @ ro @ [b + 3]"
    by (rule cat_blocks_row)
  let ?a = "filter (\<lambda>v. v \<noteq> ?p) r0"
  let ?c = "filter (\<lambda>v. v \<noteq> ?p) r1"
  let ?d = "filter (\<lambda>v. v \<noteq> ?p) ro"
  from leading_zeros_Inr(2) [OF in0' r(1)] obtain s0 where
    "s0 \<in> set in0" "set r0 \<subseteq> insert ?p (set s0)" by blast
  then have a: "\<forall>v \<in> set ?a. 0 \<le> v \<and> v < b"
    using d0 by (intro filter_digits_subset) auto
  from leading_zeros_Inr(2) [OF in1' r(2)] obtain s1 where
    "s1 \<in> set in1" "set r1 \<subseteq> insert ?p (set s1)" by blast
  then have c: "\<forall>v \<in> set ?c. 0 \<le> v \<and> v < b"
    using d1 by (intro filter_digits_subset) auto
  from leading_zeros_Inr(2) [OF out' r(3)] obtain so where
    "so \<in> set out" "set ro \<subseteq> insert ?p (set so)" by blast
  then have d: "\<forall>v \<in> set ?d. 0 \<le> v \<and> v < b"
    using d2 by (intro filter_digits_subset) auto
  have "row = ?a @ [b + 1] @ ?c @ [b] @ ?d @ [b + 3] @ replicate (count_list cr ?p) ?p"
    by (simp add: row_eq move_padding_row_eq cr_eq)
  with a c d show ?thesis by blast
qed

text \<open>
  C7. With digit draws in \<open>[0, base)\<close> and a base of at least 2, every row that
  \<open>generate_batch\<close> returns holds the separator, the end token and the eos token once
  each, the separator before the end token and the end token before the eos token (the
  row is \<open>a @ [separator] @ c @ [end] @ d @ [eos] @ e\<close>); and no digit in
  \<open>[0, base)\<close> is one of the reserved tokens \<open>base\<close>, \<open>base + 1\<close>,
  \<open>base + 2\<close>, \<open>base + 3\<close>.
\<close>

theorem generate_batch_markers:
  assumes "2 \<le> b"
    and "\<forall>i j. 0 \<le> digits0 rnd i j \<and> digits0 rnd i j < b"
    and "\<forall>i j. 0 \<le> digits1 rnd i j \<and> digits1 rnd i j < b"
    and "generate_batch (AdditionDataset_init n b L) bs rnd = Inr res"
  shows "list_all
           (\<lambda>row. count_list row (separator_token (AdditionDataset_init n b L)) = 1
                 \<and> count_list row (end_token (AdditionDataset_init n b L)) = 1
                 \<and> count_list row (eos_token (AdditionDataset_init n b L)) = 1
                 \<and> (\<exists>a c d e. row = a @ [separator_token (AdditionDataset_init n b L)]
                                     @ c @ [end_token (AdditionDataset_init n b L)]
                                     @ d @ [eos_token (AdditionDataset_init n b L)] @ e))
           res
         \<and> (\<forall>d. 0 \<le> d \<and> d < b \<longrightarrow>
                d \<noteq> end_token (AdditionDataset_init n b L)
              \<and> d \<noteq> separator_token (AdditionDataset_init n b L)
              \<and> d \<noteq> padding_token (AdditionDataset_init n b L)
              \<and> d \<noteq> eos_token (AdditionDataset_init n b L))
         \<and> [end_token (AdditionDataset_init n b L), separator_token (AdditionDataset_init n b L),
            padding_token (AdditionDataset_init n b L), eos_token (AdditionDataset_init n b L)]
           = [b, b + 1, b + 2, b + 3]"
proof (intro conjI)
  have self: "separator_token (AdditionDataset_init n b L) = b + 1"
    "end_token (AdditionDataset_init n b L) = b" "eos_token (AdditionDataset_init n b L) = b + 3"
    "padding_token (AdditionDataset_init n b L) = b + 2"
    by (simp_all add: AdditionDataset_init_def)
  have b1: "1 \<le> b" using assms(1) by simp
  show "list_all
           (\<lambda>row. count_list row (separator_token (AdditionDataset_init n b L)) = 1
                 \<and> count_list row (end_token (AdditionDataset_init n b L)) = 1
                 \<and> count_list row (eos_token (AdditionDataset_init n b L)) = 1
                 \<and> (\<exists>a c d e. row = a @ [separator_token (AdditionDataset_init n b L)]
                                     @ c @ [end_token (AdditionDataset_init n b L)]
                                     @ d @ [eos_token (AdditionDataset_init n b L)] @ e))
           res"
    unfolding list_all_iff self
  proof
    fix row assume "row \<in> set res"
    from generate_batch_row_form [OF b1 assms(2) assms(3) assms(4) this]
    obtain a c d k where
      row: "row = a @ [b + 1] @ c @ [b] @ d @ [b + 3] @ replicate k (b + 2)"
      and dig: "\<forall>v \<in> set a. 0 \<le> v \<and> v < b" "\<forall>v \<in> set c. 0 \<le> v \<and> v < b"
        "\<forall>v \<in> set d. 0 \<le> v \<and> v < b"
      by blast
    have "\<exists>a c d e. row = a @ [b + 1] @ c @ [b] @ d @ [b + 3] @ e" using row by blast
    with marker_counts [OF dig, of k]
    show "count_list row (b + 1) = 1 \<and> count_list row b = 1 \<and> count_list row (b + 3) = 1
          \<and> (\<exists>a c d e. row = a @ [b + 1] @ c @ [b] @ d @ [b + 3] @ e)"
      unfolding row by blast
  qed
  show "\<forall>d. 0 \<le> d \<and> d < b \<longrightarrow>
                d \<noteq> end_token (AdditionDataset_init n b L)
              \<and> d \<noteq> separator_token (AdditionDataset_init n b L)
              \<and> d \<noteq> padding_token (AdditionDataset_init n b L)
              \<and> d \<noteq> eos_token (AdditionDataset_init n b L)"
    by (simp add: self)
  show "[end_token (AdditionDataset_init n b L), separator_token (AdditionDataset_init n b L),
            padding_token (AdditionDataset_init n b L), eos_token (AdditionDataset_init n b L)]
           = [b, b + 1, b + 2, b + 3]"
    by (simp add: self)
qed

theorem generate_batch_markers_witness:
  "count_list [7, 11, 3, 10, 1, 0, 13, 12, 12, 12] (11::int) = 1
   \<and> count_list [7, 11, 3, 10, 1, 0, 13, 12, 12, 12] (10::int) = 1
   \<and> count_list [7, 11, 3, 10, 1, 0, 13, 12, 12, 12] (13::int) = 1
   \<and> [end_token (AdditionDataset_init 1000000 10 2),
       separator_token (AdditionDataset_init 1000000 10 2),
       padding_token (AdditionDataset_init 1000000 10 2),
       eos_token (AdditionDataset_init 1000000 10 2)] = [10, 11, 12, 13]"
proof -
  have h: "(2::int) \<le> 10"
    "\<forall>i j. 0 \<le> digits0 \<lparr>digits0 = \<lambda>i j. 7, n_digits0 = \<lambda>i. 1,
        digits1 = \<lambda>i j. 3, n_digits1 = \<lambda>i. 1\<rparr> i j
      \<and> digits0 \<lparr>digits0 = \<lambda>i j. 7, n_digits0 = \<lambda>i. 1,
        digits1 = \<lambda>i j. 3, n_digits1 = \<lambda>i. 1\<rparr> i j < (10::int)"
    "\<forall>i j. 0 \<le> digits1 \<lparr>digits0 = \<lambda>i j. 7, n_digits0 = \<lambda>i. 1,
        digits1 = \<lambda>i j. 3, n_digits1 = \<lambda>i. 1\<rparr> i j
      \<and> digits1 \<lparr>digits0 = \<lambda>i j. 7, n_digits0 = \<lambda>i. 1,
        digits1 = \<lambda>i j. 3, n_digits1 = \<lambda>i. 1\<rparr> i j < (10::int)"
    by simp_all
  from generate_batch_markers [OF h example_batch]
  show ?thesis by (simp add: AdditionDataset_init_def)
qed

section \<open>Theorems: the curriculum\<close>

lemma number_length_epoch:
  "number_length (dataset (epoch acc s))
   = (if acc > 9 / 10 then number_length (dataset s) + 1 else number_length (dataset s))"
  by (simp add: epoch_def Let_def)

lemma time_to_success_epoch:
  "time_to_success (epoch acc s) = counter_incr (time_to_success s) (number_length (dataset s))"
  by (simp add: epoch_def Let_def)

lemma epochs_loop_append: "epochs_loop (accs @ later) s = epochs_loop later (epochs_loop accs s)"
  by (simp add: epochs_loop_def)

lemma counter_get_incr:
  "counter_get (counter_incr c k) j = (if j = k then counter_get c k + 1 else counter_get c j)"
  by (simp add: counter_incr_def counter_get_def)

lemma epochs_loop_mono:
  "number_length (dataset s) \<le> number_length (dataset (epochs_loop accs s))
   \<and> counter_get (time_to_success s) k \<le> counter_get (time_to_success (epochs_loop accs s)) k
   \<and> dom (time_to_success s) \<subseteq> dom (time_to_success (epochs_loop accs s))"
proof (induction accs arbitrary: s)
  case Nil
  show ?case by (simp add: epochs_loop_def)
next
  case (Cons acc accs)
  have step: "number_length (dataset s) \<le> number_length (dataset (epoch acc s))
      \<and> counter_get (time_to_success s) k \<le> counter_get (time_to_success (epoch acc s)) k
      \<and> dom (time_to_success s) \<subseteq> dom (time_to_success (epoch acc s))"
  proof (intro conjI)
    show "number_length (dataset s) \<le> number_length (dataset (epoch acc s))"
      by (simp add: number_length_epoch)
    show "counter_get (time_to_success s) k \<le> counter_get (time_to_success (epoch acc s)) k"
      by (simp add: time_to_success_epoch counter_get_incr)
    show "dom (time_to_success s) \<subseteq> dom (time_to_success (epoch acc s))"
      by (auto simp: time_to_success_epoch counter_incr_def)
  qed
  have unfold: "epochs_loop (acc # accs) s = epochs_loop accs (epoch acc s)"
    by (simp add: epochs_loop_def)
  from Cons.IH [of "epoch acc s"] step show ?case
    unfolding unfold by (meson order_trans)
qed

text \<open>
  C8. From \<open>number_length = 1\<close> and an empty counter, the accuracies \<open>[0.5, 0.95]\<close>
  leave \<open>number_length\<close> at 1 after the first epoch and raise it to 2 after the second,
  where \<open>time_to_success[1]\<close> is 2 (and 1 after the first epoch); an epoch increments
  \<open>number_length\<close> exactly when its mean validation accuracy exceeds 0.9.
\<close>

theorem curriculum_two_epochs:
  "number_length (dataset (manual_training [] (AdditionDataset_init n b 1))) = 1
   \<and> number_length (dataset (manual_training [1 / 2] (AdditionDataset_init n b 1))) = 1
   \<and> number_length (dataset (manual_training [1 / 2, 95 / 100] (AdditionDataset_init n b 1))) = 2
   \<and> counter_get (time_to_success (manual_training [1 / 2] (AdditionDataset_init n b 1))) 1 = 1
   \<and> counter_get (time_to_success (manual_training [1 / 2, 95 / 100] (AdditionDataset_init n b 1))) 1 = 2
   \<and> number_length (dataset (epoch acc s))
     = (if acc > 9 / 10 then number_length (dataset s) + 1 else number_length (dataset s))"
  by (simp add: manual_training_def epochs_loop_def epoch_def Let_def AdditionDataset_init_def
      counter_incr_def counter_get_def)

text \<open>
  C9. In every run of the driver loop, whatever the accuracies, \<open>number_length\<close> after
  any number of epochs is at most what it is after any further epochs, and so is every
  entry of \<open>time_to_success\<close>; no key of the counter is ever removed.
\<close>

theorem curriculum_ratchet:
  "number_length (dataset (epochs_loop accs s))
     \<le> number_length (dataset (epochs_loop (accs @ later) s))
   \<and> counter_get (time_to_success (epochs_loop accs s)) k
     \<le> counter_get (time_to_success (epochs_loop (accs @ later) s)) k
   \<and> dom (time_to_success (epochs_loop accs s))
     \<subseteq> dom (time_to_success (epochs_loop (accs @ later) s))"
  unfolding epochs_loop_append by (rule epochs_loop_mono)

section \<open>Theorems: the entry point\<close>

text \<open>
  C10, as the code has it. \<open>main\<close> parses the command line before it constructs the
  dataset. Whatever the command line, the parser, the model class and the training
  function are: when \<open>parser.parse_args()\<close> ends the program (\<open>--help\<close>, an unknown
  flag, a bad value), \<open>main\<close> ends with that \<open>SystemExit\<close>; when it returns a
  namespace, \<open>main\<close> ends with \<open>TypeError\<close> at the construction of the dataset, since
  the keyword \<open>sequence_length\<close> names no parameter of \<open>__init__\<close>. In both cases no
  dataset, no model and no training came to be. The same call without that keyword
  constructs the dataset.
\<close>

theorem main_ends_before_dataset:
  "main argv parse_args AdditionModel training
   = (case parse_args argv of
        Inl e \<Rightarrow> ([], Inl e)
      | Inr args \<Rightarrow> ([ArgumentsParsed], Inl TypeError))
   \<and> AdditionDataset_call [10 ^ 6] [(''base'', 10), (''number_length'', 1), (''sequence_length'', 2)]
     = Inl TypeError
   \<and> ''sequence_length'' \<notin> set AdditionDataset_params
   \<and> AdditionDataset_call [10 ^ 6] [(''base'', 10), (''number_length'', 1)]
     = Inr (AdditionDataset_init (10 ^ 6) 10 1)"
  by (simp add: main_def AdditionDataset_call_def bind_arguments_def AdditionDataset_params_def
      split: sum.splits)

text \<open>
  The claim as stated fails for the command line \<open>--help\<close>, on which \<open>argparse\<close>
  prints the help and raises \<open>SystemExit(0)\<close>: \<open>main\<close> ends with \<open>SystemExit\<close>, not
  with \<open>TypeError\<close>. The parser below does on \<open>--help\<close> what \<open>argparse\<close> does.
\<close>

theorem main_help_counterexample:
  "main [''--help'']
     (\<lambda>argv. if ''--help'' \<in> set argv then Inl (SystemExit 0) else Inr argv)
     (\<lambda>ds args. Inl RuntimeError) (\<lambda>(model :: unit) ds args. Inl RuntimeError)
   = ([], Inl (SystemExit 0))
   \<and> SystemExit 0 \<noteq> TypeError"
  by (simp add: main_def)

end
